theory Spec2Isabelle
  imports Main
begin

section \<open>JavaScript string primitives used by the extraction engine\<close>

text \<open>
  The engine lives in \<^verbatim>\<open>src/app/api/fetch-html/route.ts\<close>. JavaScript strings are
  modelled as HOL strings; a character stands for the UTF-16 code unit of the same
  value, read in the ASCII range. \<open>is_space\<close> is the ASCII part of the class
  \<^verbatim>\<open>\s\<close> (which is also what \<^verbatim>\<open>trim()\<close> strips); \<open>toLowerCase\<close> and
  \<open>toUpperCase\<close> act on the ASCII letters. Text with characters outside ASCII, where
  the whitespace class has more members and case folding reaches more letters and can
  change the length of a string, is outside the model; no proof below uses that
  \<open>toLowerCase\<close> keeps the length of a string.
\<close>

abbreviation NL :: char where "NL \<equiv> CHR 0x0A"

abbreviation SP :: char where "SP \<equiv> CHR 0x20"

definition is_space :: "char \<Rightarrow> bool" where
  "is_space c = (c = CHR 0x09 \<or> c = CHR 0x0A \<or> c = CHR 0x0B \<or> c = CHR 0x0C
     \<or> c = CHR 0x0D \<or> c = CHR 0x20)"

definition lower_char :: "char \<Rightarrow> char" where
  "lower_char c = (let n = (of_char c :: nat) in
     if 65 \<le> n \<and> n \<le> 90 then char_of (n + 32) else c)"

definition upper_char :: "char \<Rightarrow> char" where
  "upper_char c = (let n = (of_char c :: nat) in
     if 97 \<le> n \<and> n \<le> 122 then char_of (n - 32) else c)"

definition toLowerCase :: "string \<Rightarrow> string" where
  "toLowerCase s = map lower_char s"

definition toUpperCase :: "string \<Rightarrow> string" where
  "toUpperCase s = map upper_char s"

text \<open>\<^verbatim>\<open>s.trim()\<close>: whitespace is dropped at both ends.\<close>

definition trim :: "string \<Rightarrow> string" where
  "trim s = rev (dropWhile is_space (rev (dropWhile is_space s)))"

text \<open>
  \<^verbatim>\<open>s.replace(/\s+/g, " ")\<close>: every maximal run of whitespace becomes one space. The
  flag says whether the scan is inside a run that has already been replaced.
\<close>

fun squeeze_ws :: "bool \<Rightarrow> string \<Rightarrow> string" where
  "squeeze_ws inrun [] = []"
| "squeeze_ws inrun (c # cs) =
     (if is_space c then (if inrun then squeeze_ws True cs else SP # squeeze_ws True cs)
      else c # squeeze_ws False cs)"

text \<open>\<^verbatim>\<open>text.replace(/\s+/g, " ").trim()\<close>, the normalisation of a block's text.\<close>

definition normalize :: "string \<Rightarrow> string" where
  "normalize s = trim (squeeze_ws False s)"

text \<open>\<^verbatim>\<open>s.includes(sub)\<close>, the test behind the selector \<^verbatim>\<open>[attr*="sub"]\<close>.\<close>

fun str_includes :: "string \<Rightarrow> string \<Rightarrow> bool" where
  "str_includes [] sub = (sub = [])"
| "str_includes (c # cs) sub = (take (length sub) (c # cs) = sub \<or> str_includes cs sub)"

text \<open>\<^verbatim>\<open>s.split(d)\<close> for a one-character separator: never the empty list.\<close>

fun split_on :: "char \<Rightarrow> string \<Rightarrow> string list" where
  "split_on d [] = [[]]"
| "split_on d (c # cs) =
     (if c = d then [] # split_on d cs
      else (case split_on d cs of [] \<Rightarrow> [[c]] | w # ws \<Rightarrow> (c # w) # ws))"

text \<open>\<^verbatim>\<open>xs.join(sep)\<close>.\<close>

fun join :: "string \<Rightarrow> string list \<Rightarrow> string" where
  "join sep [] = []"
| "join sep [x] = x"
| "join sep (x # y # ys) = x @ sep @ join sep (y # ys)"

text \<open>\<^verbatim>\<open>c.repeat(Math.min(n, cap))\<close>, the underline of a heading.\<close>

definition underline :: "char \<Rightarrow> nat \<Rightarrow> nat \<Rightarrow> string" where
  "underline c n cap = replicate (min n cap) c"

section \<open>Word wrap\<close>

text \<open>
  The loop of \<^verbatim>\<open>wordWrap\<close> (route.ts, lines 142 to 149), with the pair of its two
  variables \<^verbatim>\<open>lines\<close> and \<^verbatim>\<open>currentLine\<close> as the state.
\<close>

fun wrap_loop :: "nat \<Rightarrow> string list \<Rightarrow> string list \<times> string \<Rightarrow> string list \<times> string" where
  "wrap_loop maxWidth [] st = st"
| "wrap_loop maxWidth (word # words) (lines, currentLine) =
     (if length currentLine + length word + 1 \<le> maxWidth
      then wrap_loop maxWidth words
             (lines, currentLine @ (if currentLine \<noteq> [] then [SP] else []) @ word)
      else wrap_loop maxWidth words
             (if currentLine \<noteq> [] then lines @ [currentLine] else lines, word))"

definition wordWrap :: "string \<Rightarrow> nat \<Rightarrow> string" where
  "wordWrap text maxWidth =
     (case wrap_loop maxWidth (split_on SP text) ([], []) of
        (lines, currentLine) \<Rightarrow>
          join [NL] (if currentLine \<noteq> [] then lines @ [currentLine] else lines))"

section \<open>Assembling the output\<close>

text \<open>
  \<^verbatim>\<open>s.replace(/\n{3,}/g, "\n\n")\<close>: the scan counts the newlines of the current run in
  \<open>k\<close>; a run that ends is written back as it was when shorter than three and as two
  newlines otherwise.
\<close>

fun collapse_newlines :: "nat \<Rightarrow> string \<Rightarrow> string" where
  "collapse_newlines k [] = replicate (min k 2) NL"
| "collapse_newlines k (c # cs) =
     (if c = NL then collapse_newlines (Suc k) cs
      else replicate (min k 2) NL @ c # collapse_newlines 0 cs)"

text \<open>\<^verbatim>\<open>s.replace(/^\s+|\s+$/g, "")\<close>: without the m flag the anchors are the two ends.\<close>

definition strip_edges :: "string \<Rightarrow> string" where
  "strip_edges s = rev (dropWhile is_space (rev (dropWhile is_space s)))"

text \<open>The last statement of \<^verbatim>\<open>extractText\<close> (lines 129 to 133).\<close>

definition cleanup_text :: "string list \<Rightarrow> string" where
  "cleanup_text lines = trim (strip_edges (collapse_newlines 0 (join [NL] lines)))"

text \<open>The last statement of \<^verbatim>\<open>extractStructuredText\<close> (lines 237 to 240).\<close>

definition cleanup_structured :: "string list \<Rightarrow> string" where
  "cleanup_structured lines = trim (collapse_newlines 0 (join [NL] lines))"

section \<open>The parsed document\<close>

text \<open>
  \<^verbatim>\<open>cheerio.load(html)\<close> parses the markup; the parser is a library, and the model
  starts from its result: the children of the document root. Tag and attribute names are
  in lower case, as the HTML parser leaves them, and an attribute name occurs once in an
  element.
\<close>

datatype node =
    Element string "(string \<times> string) list" "node list"
  | Text string
  | Comment string

type_synonym attrs = "(string \<times> string) list"

text \<open>
  The selectors that occur in the source: \<^verbatim>\<open>name\<close>, \<^verbatim>\<open>[attr]\<close>, \<^verbatim>\<open>[attr*="v"]\<close>,
  \<^verbatim>\<open>[attr="v"]\<close> and \<^verbatim>\<open>.class\<close>. A selector list \<^verbatim>\<open>a, b\<close> is a list of them.
\<close>

datatype selector =
    Tag string
  | HasAttr string
  | AttrContains string string
  | AttrEquals string string
  | HasClass string

text \<open>The whitespace-separated tokens of an attribute value, for \<^verbatim>\<open>.class\<close>.\<close>

fun tokens :: "string \<Rightarrow> string \<Rightarrow> string list" where
  "tokens cur [] = (if cur = [] then [] else [cur])"
| "tokens cur (c # cs) =
     (if is_space c then (if cur = [] then tokens [] cs else cur # tokens [] cs)
      else tokens (cur @ [c]) cs)"

fun matches :: "selector \<Rightarrow> string \<Rightarrow> attrs \<Rightarrow> bool" where
  "matches (Tag name) t a = (t = name)"
| "matches (HasAttr k) t a = (map_of a k \<noteq> None)"
| "matches (AttrContains k v) t a =
     (case map_of a k of None \<Rightarrow> False | Some x \<Rightarrow> str_includes x v)"
| "matches (AttrEquals k v) t a = (map_of a k = Some v)"
| "matches (HasClass c) t a =
     (case map_of a ''class'' of None \<Rightarrow> False | Some x \<Rightarrow> c \<in> set (tokens [] x))"

definition matches_any :: "selector list \<Rightarrow> string \<Rightarrow> attrs \<Rightarrow> bool" where
  "matches_any sels t a = list_ex (\<lambda>s. matches s t a) sels"

text \<open>Only elements match a selector.\<close>

fun node_matches :: "selector list \<Rightarrow> node \<Rightarrow> bool" where
  "node_matches sels (Element t a cs) = matches_any sels t a"
| "node_matches sels (Text s) = False"
| "node_matches sels (Comment s) = False"

text \<open>
  \<^verbatim>\<open>$(sel).remove()\<close>: every element that matches leaves the tree, with its subtree.
\<close>

fun remove_nodes :: "(string \<Rightarrow> attrs \<Rightarrow> bool) \<Rightarrow> node list \<Rightarrow> node list" where
  "remove_nodes P [] = []"
| "remove_nodes P (Element t a cs # ns) =
     (if P t a then remove_nodes P ns
      else Element t a (remove_nodes P cs) # remove_nodes P ns)"
| "remove_nodes P (Text s # ns) = Text s # remove_nodes P ns"
| "remove_nodes P (Comment s # ns) = Comment s # remove_nodes P ns"

text \<open>The \<^verbatim>\<open>remove()\<close> statements of a pipeline, run one after the other.\<close>

definition remove_each :: "selector list \<Rightarrow> node list \<Rightarrow> node list" where
  "remove_each sels doc = fold (\<lambda>s. remove_nodes (matches s)) sels doc"

text \<open>
  \<^verbatim>\<open>.text()\<close> of a list of nodes: the text leaves below them, in document order. Both
  pipelines call it after every \<^verbatim>\<open>script\<close> and \<^verbatim>\<open>style\<close> element has been removed, so
  it does not matter whether the library's \<^verbatim>\<open>text()\<close> would read into such elements.
\<close>

fun text_content :: "node list \<Rightarrow> string" where
  "text_content [] = []"
| "text_content (Element t a cs # ns) = text_content cs @ text_content ns"
| "text_content (Text s # ns) = s @ text_content ns"
| "text_content (Comment s # ns) = text_content ns"

text \<open>
  Every element below the given nodes, in document order, with its ancestors (the
  nearest first): what a selection walks through and what \<^verbatim>\<open>.parents()\<close> reads.
\<close>

fun elements :: "node list \<Rightarrow> node list \<Rightarrow> (node \<times> node list) list" where
  "elements [] anc = []"
| "elements (Element t a cs # ns) anc =
     (Element t a cs, anc) # elements cs (Element t a cs # anc) @ elements ns anc"
| "elements (Text s # ns) anc = elements ns anc"
| "elements (Comment s # ns) anc = elements ns anc"

text \<open>\<^verbatim>\<open>$(sel)\<close> on the whole document.\<close>

definition select_all :: "selector list \<Rightarrow> node list \<Rightarrow> (node \<times> node list) list" where
  "select_all sels doc = filter (\<lambda>(el, anc). node_matches sels el) (elements doc [])"

text \<open>\<^verbatim>\<open>$("body").find(sel)\<close>: the matching elements that have a body among their ancestors.\<close>

definition body_find :: "selector list \<Rightarrow> node list \<Rightarrow> (node \<times> node list) list" where
  "body_find sels doc =
     filter (\<lambda>(el, anc). node_matches sels el \<and> list_ex (node_matches [Tag ''body'']) anc)
       (elements doc [])"

fun tagName :: "node \<Rightarrow> string" where
  "tagName (Element t a cs) = t"
| "tagName (Text s) = []"
| "tagName (Comment s) = []"

fun children :: "node \<Rightarrow> node list" where
  "children (Element t a cs) = cs"
| "children (Text s) = []"
| "children (Comment s) = []"

text \<open>\<^verbatim>\<open>$el.parents(sel)\<close>, read from the ancestors of the element.\<close>

definition parents :: "selector list \<Rightarrow> node list \<Rightarrow> node list" where
  "parents sels anc = filter (node_matches sels) anc"

text \<open>
  \<^verbatim>\<open>$el.clone().children(sel).remove().end().text()\<close>: the text of a copy of the element
  that has lost the children (not the deeper descendants) matching the selector.
\<close>

definition text_without_children :: "selector list \<Rightarrow> node \<Rightarrow> string" where
  "text_without_children sels el =
     text_content (filter (\<lambda>c. \<not> node_matches sels c) (children el))"

text \<open>\<^verbatim>\<open>$("title").text().trim()\<close>\<close>

definition title_text :: "node list \<Rightarrow> string" where
  "title_text doc =
     trim (concat (map (\<lambda>(el, anc). text_content [el]) (select_all [Tag ''title''] doc)))"

section \<open>The readable-text pipeline\<close>

definition text_noise :: "selector list" where
  "text_noise =
     [Tag ''script'', Tag ''style'', Tag ''noscript'', Tag ''iframe'', Tag ''svg'',
      Tag ''head'', Tag ''nav'', Tag ''footer'', Tag ''header'', HasAttr ''hidden'',
      AttrContains ''style'' ''display: none'', AttrContains ''style'' ''display:none'',
      AttrEquals ''aria-hidden'' ''true'', Tag ''button'', Tag ''input'', Tag ''select'',
      Tag ''form'', HasClass ''advertisement'', HasClass ''ads'',
      AttrEquals ''role'' ''navigation'', AttrEquals ''role'' ''banner'',
      AttrEquals ''role'' ''complementary'']"

definition text_blocks :: "selector list" where
  "text_blocks = map Tag [''h1'', ''h2'', ''h3'', ''h4'', ''h5'', ''h6'', ''p'', ''article'',
     ''section'', ''main'', ''li'', ''td'', ''th'', ''blockquote'', ''figcaption'']"

definition text_containers :: "selector list" where
  "text_containers = map Tag [''p'', ''li'', ''td'', ''th'', ''blockquote'', ''figcaption'']"

definition headings :: "string list" where
  "headings = [''h1'', ''h2'', ''h3'', ''h4'', ''h5'', ''h6'']"

definition text_inner_noise :: "selector list" where
  "text_inner_noise = map Tag [''script'', ''style'', ''nav'', ''footer'', ''header'', ''aside'']"

text \<open>The \<^verbatim>\<open>switch\<close> of \<^verbatim>\<open>extractText\<close> (lines 80 to 125): the lines a block pushes.\<close>

definition format_text :: "string \<Rightarrow> string \<Rightarrow> string list" where
  "format_text tag text =
     (if tag = ''h1'' then
        [[], toUpperCase text, underline (CHR ''='') (length text) 50, []]
      else if tag = ''h2'' then
        [[], text, underline (CHR ''-'') (length text) 40, []]
      else if tag \<in> {''h3'', ''h4'', ''h5'', ''h6''} then
        [[], ''['' @ text @ '']'', []]
      else if tag = ''li'' then
        [''  - '' @ text]
      else if tag = ''blockquote'' then
        [[], ''  '' @ [CHR 0x22] @ text @ [CHR 0x22], []]
      else if tag \<in> {''td'', ''th''} then
        [''| '' @ text @ '' |'']
      else if tag = ''figcaption'' then
        [''  ('' @ text @ '')'']
      else if length text > 15 then
        [wordWrap text 80, []]
      else [])"

text \<open>
  The state of the walk is the pair of \<^verbatim>\<open>lines\<close> and \<^verbatim>\<open>seen\<close>; \<open>visit_text\<close> is the
  callback of \<^verbatim>\<open>.each\<close> (lines 48 to 126), and each \<^verbatim>\<open>return\<close> of the callback leaves
  the state as it was.
\<close>

record walk =
  lines :: "string list"
  seen :: "string set"

definition visit_text :: "node \<times> node list \<Rightarrow> walk \<Rightarrow> walk" where
  "visit_text cand st =
     (case cand of (el, anc) \<Rightarrow>
        let tag = toLowerCase (tagName el) in
        if parents text_containers anc \<noteq> [] \<and> tag \<notin> set headings then st
        else
          let text = trim (text_without_children text_inner_noise el) in
          if text = [] then st
          else
            let text = normalize text; textLower = toLowerCase text in
            if length text < 3 \<or> textLower \<in> seen st then st
            else \<lparr>lines = lines st @ format_text tag text,
                  seen = insert textLower (seen st)\<rparr>)"

text \<open>The title block (lines 37 to 43).\<close>

definition title_block :: "node list \<Rightarrow> walk" where
  "title_block doc =
     (let title = title_text doc in
      if title \<noteq> [] then
        \<lparr>lines = [title, underline (CHR ''='') (length title) 50, []],
         seen = {toLowerCase title}\<rparr>
      else \<lparr>lines = [], seen = {}\<rparr>)"

definition extractText :: "node list \<Rightarrow> string" where
  "extractText html =
     (let doc = remove_each text_noise html
      in cleanup_text (lines (fold visit_text (body_find text_blocks doc) (title_block doc))))"

section \<open>The structured pipeline\<close>

definition structured_noise :: "selector list" where
  "structured_noise =
     [Tag ''script'', Tag ''style'', Tag ''noscript'', Tag ''iframe'', Tag ''svg'',
      Tag ''head'', HasAttr ''hidden'', AttrContains ''style'' ''display: none'',
      AttrContains ''style'' ''display:none'']"

definition structured_blocks :: "selector list" where
  "structured_blocks = map Tag [''h1'', ''h2'', ''h3'', ''h4'', ''h5'', ''h6'', ''p'', ''li'',
     ''td'', ''th'', ''blockquote'', ''pre'', ''span'', ''div'', ''a'']"

definition structured_containers :: "selector list" where
  "structured_containers = map Tag [''p'', ''li'', ''h1'', ''h2'', ''h3'', ''h4'', ''h5'', ''h6'']"

definition structured_inner_noise :: "selector list" where
  "structured_inner_noise = map Tag [''script'', ''style'']"

text \<open>The bullet of a list item is U+2022, written here as its three UTF-8 bytes.\<close>

definition bullet :: string where
  "bullet = [CHR 0xE2, CHR 0x80, CHR 0xA2]"

definition fence :: string where
  "fence = replicate 3 (CHR 0x60)"

text \<open>The \<^verbatim>\<open>switch\<close> of \<^verbatim>\<open>extractStructuredText\<close> (lines 201 to 233).\<close>

definition format_structured :: "string \<Rightarrow> string \<Rightarrow> string list" where
  "format_structured tag text =
     (if tag = ''h1'' then [[], ''# '' @ text, []]
      else if tag = ''h2'' then [[], ''## '' @ text, []]
      else if tag = ''h3'' then [[], ''### '' @ text, []]
      else if tag \<in> {''h4'', ''h5'', ''h6''} then [[], ''#### '' @ text, []]
      else if tag = ''li'' then [bullet @ '' '' @ text]
      else if tag = ''blockquote'' then [''> '' @ text]
      else if tag = ''pre'' then [fence, text, fence]
      else if tag \<in> {''p'', ''div''} then (if length text > 20 then [text, []] else [])
      else [])"

text \<open>The callback of \<^verbatim>\<open>.each\<close> (lines 181 to 234); its state is \<^verbatim>\<open>lines\<close>.\<close>

definition visit_structured :: "node \<times> node list \<Rightarrow> string list \<Rightarrow> string list" where
  "visit_structured cand lns =
     (case cand of (el, anc) \<Rightarrow>
        let tag = toLowerCase (tagName el) in
        if parents structured_containers anc \<noteq> [] \<and> tag \<notin> {''a'', ''span''} then lns
        else
          let text = trim (text_without_children structured_inner_noise el) in
          if text = [] then lns
          else
            let text = normalize text in
            if length text < 2 then lns
            else lns @ format_structured tag text)"

definition structured_title :: "node list \<Rightarrow> string list" where
  "structured_title doc =
     (let title = title_text doc in if title \<noteq> [] then [''# '' @ title, []] else [])"

definition extractStructuredText :: "node list \<Rightarrow> string" where
  "extractStructuredText html =
     (let doc = remove_each structured_noise html
      in cleanup_structured
           (fold visit_structured (body_find structured_blocks doc) (structured_title doc)))"

section \<open>The request handler\<close>

text \<open>
  \<^verbatim>\<open>POST\<close> (lines 243 to 328) up to the point where it calls \<^verbatim>\<open>fetch\<close>. The body of the
  request is a JSON value, or nothing when \<^verbatim>\<open>request.json()\<close> rejects. Of a number only
  whether it is zero matters here.
\<close>

datatype json =
    JNull
  | JBool bool
  | JNum int
  | JStr string
  | JArr "json list"
  | JObj "(string \<times> json) list"

datatype js_error = SyntaxError | TypeError

text \<open>
  \<^verbatim>\<open>const { url } = value\<close>: destructuring \<^verbatim>\<open>null\<close> throws; a member that is missing is
  \<^verbatim>\<open>undefined\<close> (\<open>None\<close>); of a member written twice the parser keeps the last.
\<close>

fun destructure_url :: "json \<Rightarrow> js_error + json option" where
  "destructure_url JNull = Inl TypeError"
| "destructure_url (JObj kvs) = Inr (map_of (rev kvs) ''url'')"
| "destructure_url v = Inr None"

text \<open>\<^verbatim>\<open>!url\<close> is true of \<^verbatim>\<open>undefined\<close> and of a value that is not truthy.\<close>

fun truthy :: "json \<Rightarrow> bool" where
  "truthy JNull = False"
| "truthy (JBool b) = b"
| "truthy (JNum n) = (n \<noteq> 0)"
| "truthy (JStr s) = (s \<noteq> [])"
| "truthy (JArr xs) = True"
| "truthy (JObj kvs) = True"

record URL =
  protocol :: string
  href :: string

text \<open>
  What the handler answers with (\<^verbatim>\<open>NextResponse.json({ error }, { status })\<close>, the error
  being a literal of the source or the message of a caught error), or that it goes on to
  fetch the address and to extract.
\<close>

datatype message = Literal string | MessageOf js_error

datatype outcome = Respond message nat | FetchAndExtract string

text \<open>The outer \<^verbatim>\<open>catch\<close> (lines 307 to 327) for an error that is not a timeout.\<close>

definition catch_error :: "js_error \<Rightarrow> outcome" where
  "catch_error e = Respond (MessageOf e) 500"

text \<open>
  The platform's URL constructor is the parameter \<open>new_URL\<close>: \<open>None\<close> when it throws.
\<close>

definition POST :: "(json \<Rightarrow> URL option) \<Rightarrow> json option \<Rightarrow> outcome" where
  "POST new_URL body =
     (case body of
        None \<Rightarrow> catch_error SyntaxError
      | Some v \<Rightarrow>
          (case destructure_url v of
             Inl e \<Rightarrow> catch_error e
           | Inr None \<Rightarrow> Respond (Literal ''URL is required'') 400
           | Inr (Some url) \<Rightarrow>
               if \<not> truthy url then Respond (Literal ''URL is required'') 400
               else
                 (case new_URL url of
                    None \<Rightarrow> Respond (Literal ''Invalid URL format'') 400
                  | Some parsedUrl \<Rightarrow>
                      if protocol parsedUrl \<notin> {''http:'', ''https:''}
                      then Respond (Literal ''Invalid URL format'') 400
                      else FetchAndExtract (href parsedUrl))))"

section \<open>Notions used to state and prove the properties\<close>

text \<open>Three newline characters in a row somewhere in a string.\<close>

fun newline_run3 :: "string \<Rightarrow> bool" where
  "newline_run3 (a # b # c # s) = ((a = NL \<and> b = NL \<and> c = NL) \<or> newline_run3 (b # c # s))"
| "newline_run3 s = False"

text \<open>
  The two tests of the callback of \<open>extractText\<close> by name: whether the skip rule
  returns early for an element, and the normalised text the callback computes for it.
\<close>

definition skipped_text :: "node \<Rightarrow> node list \<Rightarrow> bool" where
  "skipped_text el anc =
     (parents text_containers anc \<noteq> [] \<and> toLowerCase (tagName el) \<notin> set headings)"

definition block_text :: "node \<Rightarrow> string" where
  "block_text el = normalize (trim (text_without_children text_inner_noise el))"

text \<open>The same for the callback of \<open>extractStructuredText\<close>.\<close>

definition skipped_structured :: "node \<Rightarrow> node list \<Rightarrow> bool" where
  "skipped_structured el anc =
     (parents structured_containers anc \<noteq> [] \<and> toLowerCase (tagName el) \<notin> {''a'', ''span''})"

definition structured_text :: "node \<Rightarrow> string" where
  "structured_text el = normalize (trim (text_without_children structured_inner_noise el))"

text \<open>
  Greedy line packing, written after the words of the claim about \<open>wordWrap\<close>: the
  words are taken in order; a bare word starts an empty line; a word is appended to the
  current line while the line, with a space and the word added, stays within the width;
  otherwise the line is flushed and the word starts a new line. A line is the list of
  its words.
\<close>

fun pack :: "nat \<Rightarrow> string list \<Rightarrow> string list \<Rightarrow> string list list" where
  "pack W [] line = (if line = [] then [] else [line])"
| "pack W (w # ws) line =
     (if line = [] then pack W ws [w]
      else if length (join [SP] (line @ [w])) \<le> W then pack W ws (line @ [w])
      else line # pack W ws [w])"

text \<open>The lines \<open>wordWrap\<close> joins after its loop (line 150).\<close>

definition finish :: "string list \<times> string \<Rightarrow> string list" where
  "finish st = (case st of (lns, currentLine) \<Rightarrow>
     if currentLine \<noteq> [] then lns @ [currentLine] else lns)"

text \<open>The right half of \<open>trim\<close>.\<close>

definition drop_right :: "string \<Rightarrow> string" where
  "drop_right s = rev (dropWhile is_space (rev s))"

text \<open>
  No element at any depth below the given nodes satisfies the test on tag and attributes.
\<close>

fun absent :: "(string \<Rightarrow> attrs \<Rightarrow> bool) \<Rightarrow> node list \<Rightarrow> bool" where
  "absent P [] = True"
| "absent P (Element t a cs # ns) = (\<not> P t a \<and> absent P cs \<and> absent P ns)"
| "absent P (Text s # ns) = absent P ns"
| "absent P (Comment s # ns) = absent P ns"


section \<open>Example documents and requests\<close>

text \<open>
  \<^verbatim>\<open><title>Doc</title><body><h1>Hi</h1><p>Some text here that is long enough.</p></body>\<close>
  as the HTML parser builds it: the title is put into a \<^verbatim>\<open>head\<close>, and \<^verbatim>\<open>head\<close> and
  \<^verbatim>\<open>body\<close> into an \<^verbatim>\<open>html\<close> element.
\<close>

definition c1_paragraph :: string where
  "c1_paragraph = ''Some text here that is long enough.''"

definition c1_document :: "node list" where
  "c1_document =
     [Element ''html'' []
        [Element ''head'' [] [Element ''title'' [] [Text ''Doc'']],
         Element ''body'' []
           [Element ''h1'' [] [Text ''Hi''], Element ''p'' [] [Text c1_paragraph]]]]"

text \<open>
  The state the title step leaves when it finds the title \<^verbatim>\<open>Doc\<close> (lines 38 to 43).
\<close>

definition doc_title_state :: walk where
  "doc_title_state = \<lparr>lines = [''Doc'', ''==='', []], seen = {''doc''}\<rparr>"

text \<open>A body with the given children, and the ancestors of such a child.\<close>

definition in_body :: "node list \<Rightarrow> node list" where
  "in_body ns = [Element ''html'' [] [Element ''head'' [] [], Element ''body'' [] ns]]"

definition body_anc :: "node list \<Rightarrow> node list" where
  "body_anc ns = [Element ''body'' [] ns, Element ''html'' [] [Element ''body'' [] ns]]"

text \<open>An element with no attribute that holds one text and nothing else.\<close>

definition lone_block :: "string \<Rightarrow> string \<Rightarrow> node" where
  "lone_block tg s = Element tg [] [Text s]"

text \<open>The state of a walk before its first block, when there is no title.\<close>

definition empty_walk :: walk where
  "empty_walk = \<lparr>lines = [], seen = {}\<rparr>"

text \<open>A heading, and a second one with the same text in lower case.\<close>

definition h2_hello :: node where
  "h2_hello = Element ''h2'' [] [Text ''Hello World'']"

definition h3_hello :: node where
  "h3_hello = Element ''h3'' [] [Text ''hello world'']"

definition c4_document :: "node list" where
  "c4_document = [Element ''html'' [] [Element ''head'' [] [],
     Element ''body'' [] [h2_hello, h3_hello]]]"

text \<open>Two paragraphs with the texts of the deduplication example.\<close>

definition p_hello :: node where
  "p_hello = Element ''p'' [] [Text ''Hello World'']"

definition p_hello_lower :: node where
  "p_hello_lower = Element ''p'' [] [Text ''hello world'']"

text \<open>A paragraph of ten characters, and a heading with the same text in capitals.\<close>

definition p_short :: node where
  "p_short = Element ''p'' [] [Text ''Short text'']"

definition h3_short :: node where
  "h3_short = Element ''h3'' [] [Text ''SHORT TEXT'']"

definition c5_document :: "node list" where
  "c5_document = [Element ''html'' [] [Element ''head'' [] [],
     Element ''body'' [] [p_short, h3_short]]]"

text \<open>Blocks at the length thresholds of the two pipelines.\<close>

definition p15 :: node where "p15 = Element ''p'' [] [Text ''exactly 15 char'']"

definition p16 :: node where "p16 = Element ''p'' [] [Text ''exactly 16 chars'']"

definition div20 :: node where "div20 = Element ''div'' [] [Text ''twenty characters ok'']"

definition div21 :: node where "div21 = Element ''div'' [] [Text ''twenty-one characters'']"

text \<open>A quote that holds nothing but a heading, and one that holds a heading and text.\<close>

definition blockquote_only_h2 :: node where
  "blockquote_only_h2 = Element ''blockquote'' [] [Element ''h2'' [] [Text ''Only a heading'']]"

definition c8_document :: "node list" where
  "c8_document = in_body [blockquote_only_h2]"

definition h2_famous :: node where
  "h2_famous = Element ''h2'' [] [Text ''Famous words'']"

definition blockquote_mixed :: node where
  "blockquote_mixed = Element ''blockquote'' [] [h2_famous, Text ''To be or not to be'']"

text \<open>A paragraph with a span in it.\<close>

definition span_inner :: node where
  "span_inner = Element ''span'' [] [Text ''inline words'']"

definition p_with_span :: node where
  "p_with_span = Element ''p'' [] [Text ''A paragraph that has '', span_inner, Text '' inside it.'']"



text \<open>
  A section with an \<^verbatim>\<open>aside\<close> two levels down; and a section with an \<^verbatim>\<open>aside\<close> as a
  child and a script and a header deeper, before and after the noise filter.
\<close>

definition section_deep_aside :: node where
  "section_deep_aside = Element ''section'' []
     [Element ''div'' [] [Element ''aside'' [] [Text ''Related links'']],
      Text ''Main section text here'']"

definition section_mixed :: node where
  "section_mixed = Element ''section'' []
     [Element ''aside'' [] [Text ''Side note''],
      Element ''div'' [] [Element ''script'' [] [Text ''x()''], Element ''header'' [] [Text ''Top''],
         Text ''Kept text ''],
      Text ''and the main text'']"

definition section_mixed_filtered :: node where
  "section_mixed_filtered = Element ''section'' []
     [Element ''aside'' [] [Text ''Side note''],
      Element ''div'' [] [Text ''Kept text ''],
      Text ''and the main text'']"

text \<open>
  A stand-in for the URL constructor, to run the handler on a few requests. It is right on
  the inputs of the examples: the constructor accepts the two absolute addresses with the
  protocols given here, and it throws on the empty string and on a string without a
  scheme. Every other input is treated as one it throws on.
\<close>

definition sample_URL :: "json \<Rightarrow> URL option" where
  "sample_URL v =
     (if v = JStr ''https://example.com/''
      then Some \<lparr>protocol = ''https:'', href = ''https://example.com/''\<rparr>
      else if v = JStr ''ftp://example.com/''
      then Some \<lparr>protocol = ''ftp:'', href = ''ftp://example.com/''\<rparr>
      else None)"


section \<open>The assembled output\<close>

lemma newline_run3_append: "newline_run3 (pre @ NL # NL # NL # post)"
proof (induction pre)
  case Nil
  show ?case by simp
next
  case (Cons a pre)
  show ?case
  proof (cases pre)
    case Nil
    then show ?thesis by simp
  next
    case (Cons b pre')
    with Cons.IH show ?thesis by (cases pre') auto
  qed
qed

lemma newline_run3_split: "newline_run3 s \<Longrightarrow> \<exists>pre post. s = pre @ NL # NL # NL # post"
proof (induction s rule: newline_run3.induct)
  case (1 a b c s)
  show ?case
  proof (cases "a = NL \<and> b = NL \<and> c = NL")
    case True
    then have "a # b # c # s = [] @ NL # NL # NL # s" by simp
    then show ?thesis by blast
  next
    case False
    with 1 obtain pre post where "b # c # s = pre @ NL # NL # NL # post" by auto
    then have "a # b # c # s = (a # pre) @ NL # NL # NL # post" by simp
    then show ?thesis by blast
  qed
qed simp_all

lemma newline_run3_iff: "newline_run3 s \<longleftrightarrow> (\<exists>pre post. s = pre @ NL # NL # NL # post)"
  using newline_run3_append newline_run3_split by blast

lemma run3_Cons_other: "c \<noteq> NL \<Longrightarrow> newline_run3 (c # s) = newline_run3 s"
  by (cases s rule: newline_run3.cases) auto

lemma run3_short_prefix:
  "m \<le> 2 \<Longrightarrow> c \<noteq> NL \<Longrightarrow> newline_run3 (replicate m NL @ c # s) = newline_run3 s"
proof -
  assume m: "m \<le> 2" and c: "c \<noteq> NL"
  from m consider "m = 0" | "m = 1" | "m = 2" by linarith
  then show ?thesis
  proof cases
    case 1 with c show ?thesis by (simp add: run3_Cons_other)
  next
    case 2 with c show ?thesis by (cases s) (auto simp: run3_Cons_other)
  next
    case 3
    have "newline_run3 (NL # c # s) = newline_run3 s"
      using c by (cases s) (auto simp: run3_Cons_other)
    with 3 c show ?thesis by (simp add: numeral_2_eq_2)
  qed
qed

lemma run3_replicate: "m \<le> 2 \<Longrightarrow> \<not> newline_run3 (replicate m NL)"
proof -
  assume m: "m \<le> 2"
  from m consider "m = 0" | "m = 1" | "m = 2" by linarith
  then show ?thesis by cases (simp_all add: numeral_2_eq_2)
qed

lemma collapse_no_run3: "\<not> newline_run3 (collapse_newlines k s)"
  by (induction s arbitrary: k) (simp_all add: run3_replicate run3_short_prefix)

lemma trim_decomp: "\<exists>a b. s = a @ trim s @ b"
proof -
  let ?d = "dropWhile is_space s"
  have 1: "s = takeWhile is_space s @ ?d" by simp
  have "?d = rev (dropWhile is_space (rev ?d)) @ rev (takeWhile is_space (rev ?d))"
    by (metis rev_append rev_rev_ident takeWhile_dropWhile_id)
  then have 2: "?d = trim s @ rev (takeWhile is_space (rev ?d))"
    by (simp only: trim_def)
  from 1 2 have "s = takeWhile is_space s @ trim s @ rev (takeWhile is_space (rev ?d))"
    by simp
  then show ?thesis by blast
qed

lemma trim_no_run3: "\<not> newline_run3 s \<Longrightarrow> \<not> newline_run3 (trim s)"
proof
  assume n: "\<not> newline_run3 s" and t: "newline_run3 (trim s)"
  from t obtain pre post where p: "trim s = pre @ NL # NL # NL # post"
    using newline_run3_split by blast
  obtain a b where "s = a @ trim s @ b" using trim_decomp by blast
  with p have "s = (a @ pre) @ NL # NL # NL # (post @ b)" by simp
  then have "newline_run3 s" using newline_run3_append by metis
  with n show False by simp
qed

lemma trim_hd: "trim s = c # cs \<Longrightarrow> \<not> is_space c"
proof -
  assume t: "trim s = c # cs"
  let ?d = "dropWhile is_space s"
  let ?e = "dropWhile is_space (rev ?d)"
  from t have e: "?e = rev (c # cs)" by (simp add: trim_def)
  then have ne: "?e \<noteq> []" by simp
  have "\<exists>p. rev ?d = p @ ?e" by (metis takeWhile_dropWhile_id)
  then obtain p where "rev ?d = p @ ?e" by blast
  then have "?d = rev ?e @ rev p" by (metis rev_append rev_rev_ident)
  with e have d: "?d = c # cs @ rev p" by simp
  then have "?d \<noteq> []" by simp
  then have "\<not> is_space (hd ?d)" by (rule hd_dropWhile)
  with d show ?thesis by simp
qed

lemma trim_last: "trim s = cs @ [c] \<Longrightarrow> \<not> is_space c"
proof -
  assume t: "trim s = cs @ [c]"
  let ?e = "dropWhile is_space (rev (dropWhile is_space s))"
  from t have e: "?e = c # rev cs" by (simp add: trim_def) (metis rev.simps(2) rev_rev_ident rev_swap)
  then have "?e \<noteq> []" by simp
  then have "\<not> is_space (hd ?e)" by (rule hd_dropWhile)
  with e show ?thesis by simp
qed

lemma strip_edges_trim: "strip_edges s = trim s"
  by (simp add: strip_edges_def trim_def)

lemma cleanup_text_no_run3: "\<not> newline_run3 (cleanup_text lns)"
  by (simp add: cleanup_text_def strip_edges_trim trim_no_run3 collapse_no_run3)

lemma cleanup_structured_no_run3: "\<not> newline_run3 (cleanup_structured lns)"
  by (simp add: cleanup_structured_def trim_no_run3 collapse_no_run3)

text \<open>
  Claim C9. Whatever the document, the string returned by \<open>extractText\<close> and the one
  returned by \<open>extractStructuredText\<close> contain no three newline characters in a row, do
  not begin with a whitespace character and do not end with one; and the line buffer
  \<^verbatim>\<open>["a", "", "", "", "b"]\<close> is assembled by either pipeline into \<^verbatim>\<open>"a\n\nb"\<close>.
\<close>

theorem output_collapsed_and_trimmed:
  "(\<nexists>pre post. extractText doc = pre @ [NL, NL, NL] @ post)
   \<and> (\<nexists>c cs. extractText doc = c # cs \<and> is_space c)
   \<and> (\<nexists>c cs. extractText doc = cs @ [c] \<and> is_space c)
   \<and> (\<nexists>pre post. extractStructuredText doc = pre @ [NL, NL, NL] @ post)
   \<and> (\<nexists>c cs. extractStructuredText doc = c # cs \<and> is_space c)
   \<and> (\<nexists>c cs. extractStructuredText doc = cs @ [c] \<and> is_space c)
   \<and> cleanup_text [''a'', [], [], [], ''b''] = [CHR ''a'', NL, NL, CHR ''b'']
   \<and> cleanup_structured [''a'', [], [], [], ''b''] = [CHR ''a'', NL, NL, CHR ''b'']"
proof -
  have t1: "\<nexists>pre post. extractText doc = pre @ [NL, NL, NL] @ post"
    using cleanup_text_no_run3 newline_run3_append
    by (metis append_Cons append_Nil extractText_def)
  have t2: "\<nexists>c cs. extractText doc = c # cs \<and> is_space c"
    using trim_hd by (auto simp: extractText_def cleanup_text_def Let_def)
  have t3: "\<nexists>c cs. extractText doc = cs @ [c] \<and> is_space c"
    using trim_last by (auto simp: extractText_def cleanup_text_def Let_def)
  have s1: "\<nexists>pre post. extractStructuredText doc = pre @ [NL, NL, NL] @ post"
    using cleanup_structured_no_run3 newline_run3_append
    by (metis append_Cons append_Nil extractStructuredText_def)
  have s2: "\<nexists>c cs. extractStructuredText doc = c # cs \<and> is_space c"
    using trim_hd by (auto simp: extractStructuredText_def cleanup_structured_def Let_def)
  have s3: "\<nexists>c cs. extractStructuredText doc = cs @ [c] \<and> is_space c"
    using trim_last by (auto simp: extractStructuredText_def cleanup_structured_def Let_def)
  have e1: "cleanup_text [''a'', [], [], [], ''b''] = [CHR ''a'', NL, NL, CHR ''b'']"
    by code_simp
  have e2: "cleanup_structured [''a'', [], [], [], ''b''] = [CHR ''a'', NL, NL, CHR ''b'']"
    by code_simp
  from t1 t2 t3 s1 s2 s3 e1 e2 show ?thesis by blast
qed

section \<open>The callbacks case by case\<close>

lemma normalize_Nil: "normalize [] = []"
  by (simp add: normalize_def trim_def)

lemma visit_text_cases:
  "visit_text (el, anc) st =
     (if skipped_text el anc \<or> length (block_text el) < 3
         \<or> toLowerCase (block_text el) \<in> seen st
      then st
      else \<lparr>lines = lines st @ format_text (toLowerCase (tagName el)) (block_text el),
            seen = insert (toLowerCase (block_text el)) (seen st)\<rparr>)"
  by (auto simp: visit_text_def skipped_text_def block_text_def Let_def normalize_Nil)

lemma visit_structured_cases:
  "visit_structured (el, anc) lns =
     (if skipped_structured el anc \<or> length (structured_text el) < 2 then lns
      else lns @ format_structured (toLowerCase (tagName el)) (structured_text el))"
  by (auto simp: visit_structured_def skipped_structured_def structured_text_def Let_def
      normalize_Nil)

section \<open>The end-to-end example\<close>

lemma c1_blocks:
  "body_find text_blocks (remove_each text_noise c1_document) =
     [(Element ''h1'' [] [Text ''Hi''],
       [Element ''body'' [] [Element ''h1'' [] [Text ''Hi''], Element ''p'' [] [Text c1_paragraph]],
        Element ''html'' [] [Element ''body'' []
           [Element ''h1'' [] [Text ''Hi''], Element ''p'' [] [Text c1_paragraph]]]]),
      (Element ''p'' [] [Text c1_paragraph],
       [Element ''body'' [] [Element ''h1'' [] [Text ''Hi''], Element ''p'' [] [Text c1_paragraph]],
        Element ''html'' [] [Element ''body'' []
           [Element ''h1'' [] [Text ''Hi''], Element ''p'' [] [Text c1_paragraph]]]])]"
  by code_simp

lemma c1_h1: "block_text (Element ''h1'' [] [Text ''Hi'']) = ''Hi''"
  by code_simp

lemma c1_p: "block_text (Element ''p'' [] [Text c1_paragraph]) = c1_paragraph"
  by code_simp

lemma c1_p_skip: "\<not> skipped_text (Element ''p'' [] [Text c1_paragraph])
       [Element ''body'' [] [Element ''h1'' [] [Text ''Hi''], Element ''p'' [] [Text c1_paragraph]],
        Element ''html'' [] [Element ''body'' []
           [Element ''h1'' [] [Text ''Hi''], Element ''p'' [] [Text c1_paragraph]]]]"
  by code_simp

lemma c1_p_format: "format_text (toLowerCase ''p'') c1_paragraph = [c1_paragraph, []]"
  by code_simp

text \<open>
  Claim C1, as the code has it. In the document of the claim the heading text \<^verbatim>\<open>Hi\<close> has
  two characters, under the minimum of three, so the walk pushes nothing for the
  \<^verbatim>\<open>h1\<close>; the body contributes the paragraph, wrapped into its one line, and a blank
  line after it, appended to whatever lines the title step has left, provided the
  paragraph text is not yet in the seen set.
\<close>

theorem c1_body_blocks:
  "toLowerCase c1_paragraph \<notin> seen st \<Longrightarrow>
   fold visit_text (body_find text_blocks (remove_each text_noise c1_document)) st =
     \<lparr>lines = lines st @ [c1_paragraph, []],
      seen = insert (toLowerCase c1_paragraph) (seen st)\<rparr>"
  by (simp add: c1_blocks visit_text_cases c1_h1 c1_p c1_p_skip c1_p_format)
    (simp add: c1_paragraph_def)

text \<open>
  After a title block \<^verbatim>\<open>Doc\<close> the assembled output is the title, its underline, one
  blank line and the paragraph.
\<close>

theorem c1_body_blocks_witness:
  "title_block [Element ''title'' [] [Text ''Doc'']] = doc_title_state
   \<and> toLowerCase c1_paragraph \<notin> seen doc_title_state
   \<and> cleanup_text (lines (fold visit_text
         (body_find text_blocks (remove_each text_noise c1_document)) doc_title_state)) =
       ''Doc'' @ [NL] @ ''==='' @ [NL, NL] @ ''Some text here that is long enough.''"
proof -
  have t: "title_block [Element ''title'' [] [Text ''Doc'']] = doc_title_state" by code_simp
  have h: "toLowerCase c1_paragraph \<notin> seen doc_title_state" by code_simp
  have "cleanup_text (lines doc_title_state @ [c1_paragraph, []]) =
       ''Doc'' @ [NL] @ ''==='' @ [NL, NL] @ ''Some text here that is long enough.''"
    by code_simp
  with t h c1_body_blocks [OF h] show ?thesis by simp
qed

text \<open>
  On the document of the claim \<open>extractText\<close> returns the paragraph alone: there is no
  heading \<^verbatim>\<open>HI\<close> and no title block in the output.
\<close>

theorem c1_output_counterexample:
  "extractText c1_document = ''Some text here that is long enough.''
   \<and> extractText c1_document \<noteq>
       ''Doc'' @ [NL] @ ''==='' @ [NL, NL] @ ''HI'' @ [NL] @ ''=='' @ [NL, NL]
         @ ''Some text here that is long enough.''"
proof -
  have "extractText c1_document = ''Some text here that is long enough.''"
    by code_simp
  then show ?thesis by simp
qed

section \<open>Word wrap is greedy packing\<close>

lemma wordWrap_finish: "wordWrap text W = join [NL] (finish (wrap_loop W (split_on SP text) ([], [])))"
  by (simp add: wordWrap_def finish_def split: prod.splits)

lemma join_snoc: "xs \<noteq> [] \<Longrightarrow> join sep (xs @ [x]) = join sep xs @ sep @ x"
  by (induction sep xs rule: join.induct) auto

lemma join_Cons: "xs \<noteq> [] \<Longrightarrow> join sep (x # xs) = x @ sep @ join sep xs"
  by (cases xs) auto

lemma join_nonempty: "xs \<noteq> [] \<Longrightarrow> \<forall>x\<in>set xs. x \<noteq> [] \<Longrightarrow> join sep xs \<noteq> []"
  by (induction sep xs rule: join.induct) auto

lemma wrap_loop_pack:
  assumes "\<forall>w\<in>set ws. w \<noteq> []" and "\<forall>w\<in>set line. w \<noteq> []"
  shows "finish (wrap_loop W ws (ls, join [SP] line)) = ls @ map (join [SP]) (pack W ws line)"
  using assms
proof (induction ws arbitrary: ls line)
  case Nil
  then show ?case by (cases "line = []") (auto simp: finish_def join_nonempty)
next
  case (Cons w ws)
  show ?case
  proof (cases "line = []")
    case True
    have "wrap_loop W (w # ws) (ls, []) = wrap_loop W ws (ls, join [SP] [w])"
      by simp
    moreover have "finish (wrap_loop W ws (ls, join [SP] [w])) = ls @ map (join [SP]) (pack W ws [w])"
      using Cons.prems by (intro Cons.IH) auto
    ultimately show ?thesis using True by simp
  next
    case False
    then have ne: "join [SP] line \<noteq> []" using Cons.prems(2) by (simp add: join_nonempty)
    have len: "length (join [SP] (line @ [w])) = length (join [SP] line) + length w + 1"
      using False by (simp add: join_snoc)
    show ?thesis
    proof (cases "length (join [SP] (line @ [w])) \<le> W")
      case True
      then have "wrap_loop W (w # ws) (ls, join [SP] line) = wrap_loop W ws (ls, join [SP] (line @ [w]))"
        using ne len False by (simp add: join_snoc)
      moreover have "finish (wrap_loop W ws (ls, join [SP] (line @ [w]))) =
            ls @ map (join [SP]) (pack W ws (line @ [w]))"
        using Cons.prems by (intro Cons.IH) auto
      ultimately show ?thesis using True False by simp
    next
      case nofit: False
      then have "wrap_loop W (w # ws) (ls, join [SP] line) =
            wrap_loop W ws (ls @ [join [SP] line], join [SP] [w])"
        using ne len by simp
      moreover have "finish (wrap_loop W ws (ls @ [join [SP] line], join [SP] [w])) =
            (ls @ [join [SP] line]) @ map (join [SP]) (pack W ws [w])"
        using Cons.prems by (intro Cons.IH) auto
      ultimately show ?thesis using nofit False by simp
    qed
  qed
qed

lemma split_on_nonempty: "split_on d s \<noteq> []"
  by (induction s) (auto split: list.splits)

lemma split_on_word: "d \<notin> set w \<Longrightarrow> split_on d w = [w]"
  by (induction w) auto

lemma split_on_append: "d \<notin> set w \<Longrightarrow> split_on d (w @ d # s) = w # split_on d s"
  by (induction w) (auto split: list.splits)

lemma split_on_join:
  "ws \<noteq> [] \<Longrightarrow> \<forall>w\<in>set ws. d \<notin> set w \<Longrightarrow> split_on d (join [d] ws) = ws"
proof (induction ws)
  case Nil
  then show ?case by simp
next
  case (Cons w ws)
  show ?case
  proof (cases ws)
    case Nil
    with Cons.prems show ?thesis by (simp add: split_on_word)
  next
    case (Cons v vs)
    with Cons.prems Cons.IH show ?thesis by (simp add: split_on_append)
  qed
qed

lemma wordWrap_empty: "wordWrap [] W = []"
  by (simp add: wordWrap_def)

lemma wordWrap_words:
  assumes "\<forall>w\<in>set ws. w \<noteq> [] \<and> SP \<notin> set w"
  shows "wordWrap (join [SP] ws) W = join [NL] (map (join [SP]) (pack W ws []))"
proof (cases "ws = []")
  case True
  then show ?thesis by (simp add: wordWrap_empty)
next
  case False
  with assms have "split_on SP (join [SP] ws) = ws" by (simp add: split_on_join)
  moreover have "finish (wrap_loop W ws ([], join [SP] [])) = [] @ map (join [SP]) (pack W ws [])"
    using assms by (intro wrap_loop_pack) auto
  ultimately show ?thesis by (simp add: wordWrap_finish)
qed

lemma concat_pack: "concat (pack W ws line) = line @ ws"
  by (induction ws arbitrary: line) auto

lemma pack_groups_nonempty: "l \<in> set (pack W ws line) \<Longrightarrow> l \<noteq> []"
  by (induction ws arbitrary: line) (auto split: if_splits)

lemma pack_groups_fit:
  "length line \<le> 1 \<or> length (join [SP] line) \<le> W \<Longrightarrow> l \<in> set (pack W ws line) \<Longrightarrow>
   length l = 1 \<or> length (join [SP] l) \<le> W"
proof (induction ws arbitrary: line)
  case Nil
  then show ?case by (cases line) (auto split: if_splits)
next
  case (Cons w ws)
  show ?case
  proof (cases "line = []")
    case True
    with Cons.prems(2) have "l \<in> set (pack W ws [w])" by simp
    then show ?thesis by (intro Cons.IH [of "[w]"]) auto
  next
    case False
    show ?thesis
    proof (cases "length (join [SP] (line @ [w])) \<le> W")
      case True
      with False Cons.prems(2) have "l \<in> set (pack W ws (line @ [w]))" by simp
      with True show ?thesis by (intro Cons.IH [of "line @ [w]"]) auto
    next
      case nofit: False
      with False Cons.prems(2) have "l = line \<or> l \<in> set (pack W ws [w])" by simp
      then show ?thesis
      proof
        assume "l = line"
        with Cons.prems(1) False show ?thesis by (cases line) auto
      next
        assume "l \<in> set (pack W ws [w])"
        then show ?thesis by (intro Cons.IH [of "[w]"]) auto
      qed
    qed
  qed
qed

lemma length_join_ge: "w \<in> set l \<Longrightarrow> length w \<le> length (join sep l)"
  by (induction sep l rule: join.induct) auto

lemma pack_long_word_alone:
  assumes "l \<in> set (pack W ws [])" and "w \<in> set l" and "W < length w"
  shows "l = [w]"
proof -
  have "length l = 1 \<or> length (join [SP] l) \<le> W"
    using assms(1) by (intro pack_groups_fit [of "[]"]) auto
  moreover have "length w \<le> length (join [SP] l)" using assms(2) by (rule length_join_ge)
  ultimately have "length l = 1" using assms(3) by linarith
  with assms(2) show ?thesis by (cases l) auto
qed

section \<open>The normalised text is its words joined by spaces\<close>

lemma trim_drop_right: "trim s = drop_right (dropWhile is_space s)"
  by (simp add: trim_def drop_right_def)

lemma drop_right_Nil: "drop_right [] = []"
  by (simp add: drop_right_def)

lemma drop_right_snoc: "\<not> is_space c \<Longrightarrow> drop_right (s @ [c]) = s @ [c]"
  by (simp add: drop_right_def)

lemma drop_right_append: "drop_right t \<noteq> [] \<Longrightarrow> drop_right (s @ t) = s @ drop_right t"
proof -
  assume "drop_right t \<noteq> []"
  then have "dropWhile is_space (rev t) \<noteq> []" by (simp add: drop_right_def)
  then obtain x where "x \<in> set (rev t)" and "\<not> is_space x"
    by (auto simp: dropWhile_eq_Nil_conv)
  then have "dropWhile is_space (rev t @ rev s) = dropWhile is_space (rev t) @ rev s"
    by (rule dropWhile_append1)
  then show ?thesis by (simp add: drop_right_def)
qed

lemma drop_right_spaces: "\<forall>c\<in>set t. is_space c \<Longrightarrow> drop_right (s @ t) = drop_right s"
  by (induction t rule: rev_induct) (simp_all add: drop_right_def)

lemma squeeze_True: "squeeze_ws True s = squeeze_ws False (dropWhile is_space s)"
  by (induction s) auto

lemma dropWhile_squeeze: "dropWhile is_space (squeeze_ws b s) = squeeze_ws False (dropWhile is_space s)"
  by (induction s arbitrary: b) (auto simp: is_space_def)

lemma tokens_dropWhile: "tokens [] (dropWhile is_space s) = tokens [] s"
  by (induction s) auto

lemma tokens_nonempty: "cur \<noteq> [] \<Longrightarrow> tokens cur s \<noteq> []"
  by (induction s arbitrary: cur) auto

lemma tokens_words:
  "\<forall>c\<in>set cur. \<not> is_space c \<Longrightarrow>
   \<forall>w\<in>set (tokens cur s). w \<noteq> [] \<and> (\<forall>c\<in>set w. \<not> is_space c)"
proof (induction s arbitrary: cur)
  case Nil
  then show ?case by simp
next
  case (Cons a s)
  show ?case
  proof (cases "is_space a")
    case True
    have "\<forall>w\<in>set (tokens [] s). w \<noteq> [] \<and> (\<forall>c\<in>set w. \<not> is_space c)"
      by (rule Cons.IH) simp
    with True Cons.prems show ?thesis by auto
  next
    case False
    have "\<forall>w\<in>set (tokens (cur @ [a]) s). w \<noteq> [] \<and> (\<forall>c\<in>set w. \<not> is_space c)"
      using False Cons.prems by (intro Cons.IH) auto
    with False show ?thesis by simp
  qed
qed

lemma drop_right_tokens:
  "cur \<noteq> [] \<Longrightarrow> \<forall>c\<in>set cur. \<not> is_space c \<Longrightarrow>
   drop_right (cur @ squeeze_ws False s) = join [SP] (tokens cur s)"
proof (induction s arbitrary: cur rule: length_induct)
  case (1 s)
  show ?case
  proof (cases s)
    case Nil
    with "1.prems" show ?thesis
      by (cases cur rule: rev_cases) (simp_all add: drop_right_snoc)
  next
    case (Cons a s')
    show ?thesis
    proof (cases "is_space a")
      case False
      from "1.IH" [rule_format, of s' "cur @ [a]"] Cons "1.prems" False
      have "drop_right ((cur @ [a]) @ squeeze_ws False s') = join [SP] (tokens (cur @ [a]) s')"
        by auto
      with False Cons show ?thesis by simp
    next
      case True
      let ?d = "dropWhile is_space s'"
      have sq: "squeeze_ws False s = SP # squeeze_ws False ?d"
        using True Cons by (simp add: squeeze_True)
      have tk: "tokens cur s = cur # tokens [] ?d"
        using True Cons "1.prems" by (simp add: tokens_dropWhile)
      show ?thesis
      proof (cases ?d)
        case Nil
        have "drop_right (cur @ [SP]) = drop_right cur"
          by (rule drop_right_spaces) (simp add: is_space_def)
        also have "\<dots> = cur"
          using "1.prems" by (cases cur rule: rev_cases) (simp_all add: drop_right_snoc)
        finally show ?thesis using sq tk Nil by simp
      next
        case d: (Cons b t)
        have nb: "\<not> is_space b"
          using d by (metis hd_dropWhile list.distinct(1) list.sel(1))
        have "length (b # t) \<le> length s'"
          using length_dropWhile_le [of is_space s'] by (simp only: d)
        then have "length t < length s" using Cons by simp
        with "1.IH" [rule_format, of t "[b]"] nb
        have ih: "drop_right ([b] @ squeeze_ws False t) = join [SP] (tokens [b] t)"
          by simp
        have ne: "tokens [b] t \<noteq> []" by (simp add: tokens_nonempty)
        then have "join [SP] (tokens [b] t) \<noteq> []"
          using tokens_words [of "[b]" t] nb by (simp add: join_nonempty)
        with ih have "drop_right ([b] @ squeeze_ws False t) \<noteq> []" by simp
        then have "drop_right ((cur @ [SP]) @ ([b] @ squeeze_ws False t)) =
              (cur @ [SP]) @ drop_right ([b] @ squeeze_ws False t)"
          by (rule drop_right_append)
        with ih have "drop_right ((cur @ [SP]) @ ([b] @ squeeze_ws False t)) =
              (cur @ [SP]) @ join [SP] (tokens [b] t)"
          by simp
        moreover have "squeeze_ws False ?d = b # squeeze_ws False t" using d nb by simp
        moreover have "tokens [] ?d = tokens [b] t" using d nb by simp
        ultimately show ?thesis using sq tk ne by (simp add: join_Cons)
      qed
    qed
  qed
qed

lemma normalize_tokens: "normalize s = join [SP] (tokens [] s)"
proof -
  let ?d = "dropWhile is_space s"
  have n: "normalize s = drop_right (squeeze_ws False ?d)"
    by (simp add: normalize_def trim_drop_right dropWhile_squeeze)
  show ?thesis
  proof (cases ?d)
    case Nil
    have "tokens [] s = tokens [] ?d" by (simp add: tokens_dropWhile)
    also have "\<dots> = tokens [] []" by (simp only: Nil)
    also have "\<dots> = []" by simp
    finally have "tokens [] s = []" .
    moreover have "normalize s = drop_right (squeeze_ws False [])" by (simp only: n Nil)
    ultimately show ?thesis by (simp add: drop_right_Nil)
  next
    case (Cons b t)
    have nb: "\<not> is_space b"
      using Cons by (metis hd_dropWhile list.distinct(1) list.sel(1))
    have "drop_right ([b] @ squeeze_ws False t) = join [SP] (tokens [b] t)"
      using nb by (intro drop_right_tokens) auto
    moreover have "tokens [] s = tokens [b] t"
      using tokens_dropWhile [of s] Cons nb by simp
    ultimately show ?thesis using n Cons nb by simp
  qed
qed

section \<open>Wrapping a normalised text\<close>

lemma length_join_append_le: "length (join sep xs) \<le> length (join sep (xs @ ys))"
proof (induction sep xs rule: join.induct)
  case (1 sep)
  show ?case by simp
next
  case (2 sep x)
  show ?case by (cases ys) auto
next
  case (3 sep x y ys')
  then show ?case by simp
qed

lemma pack_one_line:
  "ws \<noteq> [] \<or> line \<noteq> [] \<Longrightarrow> length (join [SP] (line @ ws)) \<le> W \<Longrightarrow> pack W ws line = [line @ ws]"
proof (induction ws arbitrary: line)
  case Nil
  then show ?case by simp
next
  case (Cons w ws)
  show ?case
  proof (cases "line = []")
    case True
    have "pack W ws [w] = [[w] @ ws]" using Cons.prems True by (intro Cons.IH) auto
    with True show ?thesis by simp
  next
    case False
    have "length (join [SP] (line @ [w])) \<le> length (join [SP] ((line @ [w]) @ ws))"
      by (rule length_join_append_le)
    with Cons.prems(2) have fit: "length (join [SP] (line @ [w])) \<le> W" by simp
    have "pack W ws (line @ [w]) = [(line @ [w]) @ ws]" using Cons.prems by (intro Cons.IH) auto
    with False fit show ?thesis by simp
  qed
qed

lemma tokens_SP_free: "\<forall>w\<in>set (tokens [] s). w \<noteq> [] \<and> SP \<notin> set w"
proof -
  have "\<forall>w\<in>set (tokens [] s). w \<noteq> [] \<and> (\<forall>c\<in>set w. \<not> is_space c)"
    by (rule tokens_words) simp
  moreover have "is_space SP" by (simp add: is_space_def)
  ultimately show ?thesis by blast
qed

lemma wordWrap_normalize:
  "wordWrap (normalize raw) W = join [NL] (map (join [SP]) (pack W (tokens [] raw) []))"
  using tokens_SP_free [of raw] by (simp only: normalize_tokens wordWrap_words)

lemma wordWrap_fits:
  assumes "length (normalize raw) \<le> W"
  shows "wordWrap (normalize raw) W = normalize raw"
proof (cases "tokens [] raw = []")
  case True
  then show ?thesis by (simp add: normalize_tokens wordWrap_empty)
next
  case False
  with assms have "pack W (tokens [] raw) [] = [[] @ tokens [] raw]"
    by (intro pack_one_line) (auto simp: normalize_tokens)
  then have "wordWrap (normalize raw) W = join [NL] (map (join [SP]) [tokens [] raw])"
    by (simp add: wordWrap_normalize)
  then show ?thesis by (simp add: normalize_tokens)
qed

text \<open>
  Claim C7. The text is whitespace-normalised: it is \<open>normalize raw\<close> for some string,
  which is the words of \<open>raw\<close> joined by single spaces. For every such text and every
  width, \<open>wordWrap\<close> returns the lines of the greedy packing \<open>pack\<close>, each line its words
  joined by spaces, the lines joined by newlines. The lines taken together are the words in
  their order, so no word is split, lost or moved; no line is empty; a line of two or more
  words fits the width; and a word longer than the width is alone on its line. Wrapping
  \<^verbatim>\<open>aaaa bbbb cccc dddd\<close> at width 9 gives \<^verbatim>\<open>aaaa bbbb\<close>, a newline, \<^verbatim>\<open>cccc dddd\<close>.
\<close>

theorem wordWrap_greedy:
  "normalize raw = join [SP] (tokens [] raw)
   \<and> wordWrap (normalize raw) W = join [NL] (map (join [SP]) (pack W (tokens [] raw) []))
   \<and> concat (pack W (tokens [] raw) []) = tokens [] raw
   \<and> (\<forall>l\<in>set (pack W (tokens [] raw) []).
         l \<noteq> [] \<and> (length l = 1 \<or> length (join [SP] l) \<le> W))
   \<and> (\<forall>l\<in>set (pack W (tokens [] raw) []). \<forall>w\<in>set l. W < length w \<longrightarrow> l = [w])
   \<and> wordWrap ''aaaa bbbb cccc dddd'' 9 = ''aaaa bbbb'' @ [NL] @ ''cccc dddd''"
proof -
  have 1: "normalize raw = join [SP] (tokens [] raw)" by (rule normalize_tokens)
  have 2: "wordWrap (normalize raw) W = join [NL] (map (join [SP]) (pack W (tokens [] raw) []))"
    by (rule wordWrap_normalize)
  have 3: "concat (pack W (tokens [] raw) []) = tokens [] raw" by (simp add: concat_pack)
  have 4: "\<forall>l\<in>set (pack W (tokens [] raw) []).
         l \<noteq> [] \<and> (length l = 1 \<or> length (join [SP] l) \<le> W)"
    using pack_groups_nonempty pack_groups_fit [of "[]"] by auto
  have 5: "\<forall>l\<in>set (pack W (tokens [] raw) []). \<forall>w\<in>set l. W < length w \<longrightarrow> l = [w]"
    using pack_long_word_alone by blast
  have 6: "wordWrap ''aaaa bbbb cccc dddd'' 9 = ''aaaa bbbb'' @ [NL] @ ''cccc dddd''"
    by code_simp
  from 1 2 3 4 5 6 show ?thesis by blast
qed

text \<open>A word of twelve characters at width 5 stays whole, alone on the first line.\<close>

theorem wordWrap_greedy_witness:
  "[''abcdefghijkl''] \<in> set (pack 5 (tokens [] ''abcdefghijkl xy z'') [])
   \<and> 5 < length ''abcdefghijkl''
   \<and> pack 5 (tokens [] ''abcdefghijkl xy z'') [] = [[''abcdefghijkl''], [''xy'', ''z'']]
   \<and> wordWrap (normalize ''abcdefghijkl xy z'') 5 = ''abcdefghijkl'' @ [NL] @ ''xy z''"
proof -
  have p: "pack 5 (tokens [] ''abcdefghijkl xy z'') [] = [[''abcdefghijkl''], [''xy'', ''z'']]"
    by code_simp
  have "join [NL] (map (join [SP]) [[''abcdefghijkl''], [''xy'', ''z'']]) =
      ''abcdefghijkl'' @ [NL] @ ''xy z''"
    by code_simp
  moreover have "wordWrap (normalize ''abcdefghijkl xy z'') 5 =
      join [NL] (map (join [SP]) (pack 5 (tokens [] ''abcdefghijkl xy z'') []))"
    using wordWrap_greedy [of "''abcdefghijkl xy z''" 5] by (elim conjE)
  ultimately have "wordWrap (normalize ''abcdefghijkl xy z'') 5 = ''abcdefghijkl'' @ [NL] @ ''xy z''"
    by (simp only: p)
  with p show ?thesis by simp
qed

section \<open>Deduplication in the readable-text pipeline\<close>

lemma seen_visit_text_mono: "seen st \<subseteq> seen (visit_text c st)"
  by (cases c) (auto simp: visit_text_cases)

lemma seen_fold_visit_text_mono: "seen st \<subseteq> seen (fold visit_text cs st)"
proof (induction cs arbitrary: st)
  case Nil
  show ?case by simp
next
  case (Cons c cs)
  have "seen st \<subseteq> seen (visit_text c st)" by (rule seen_visit_text_mono)
  also have "\<dots> \<subseteq> seen (fold visit_text cs (visit_text c st))" by (rule Cons.IH)
  finally show ?case by simp
qed

lemma registered_after_visit:
  "\<not> skipped_text el anc \<Longrightarrow> 3 \<le> length (block_text el) \<Longrightarrow>
   toLowerCase (block_text el) \<in> seen (visit_text (el, anc) st)"
  by (auto simp: visit_text_cases)

lemma later_duplicate_ignored:
  assumes "\<not> skipped_text el anc"
    and "3 \<le> length (block_text el)"
    and "toLowerCase (block_text el') = toLowerCase (block_text el)"
  shows "visit_text (el', anc') (fold visit_text between (visit_text (el, anc) st)) =
         fold visit_text between (visit_text (el, anc) st)"
proof -
  from assms(1,2) have "toLowerCase (block_text el) \<in> seen (visit_text (el, anc) st)"
    by (rule registered_after_visit)
  then have "toLowerCase (block_text el') \<in> seen (fold visit_text between (visit_text (el, anc) st))"
    using seen_fold_visit_text_mono assms(3) by (metis subsetD)
  then show ?thesis by (simp add: visit_text_cases)
qed

lemma format_text_Nil:
  "format_text tag text = [] \<longleftrightarrow>
     tag \<notin> {''h1'', ''h2'', ''h3'', ''h4'', ''h5'', ''h6'', ''li'', ''blockquote'', ''td'', ''th'',
              ''figcaption''} \<and> length text \<le> 15"
  by (simp add: format_text_def)

text \<open>
  Claim C4, as the code has it. Take two blocks of the readable-text walk whose normalised
  texts are equal after lower-casing, the first one not skipped by the skip rule and of
  three characters or more, with any blocks between them. Visiting the second leaves the
  state of the walk as it is: it pushes no line and adds nothing to the seen set. The
  first pushes the lines of its tag when its text is new, and nothing when it is already
  seen; the lines of its tag are none exactly when the tag is not a heading, \<^verbatim>\<open>li\<close>,
  \<^verbatim>\<open>blockquote\<close>, \<^verbatim>\<open>td\<close>, \<^verbatim>\<open>th\<close> or \<^verbatim>\<open>figcaption\<close> and the text has 15 characters
  or fewer. So the first block need not produce output either.
\<close>

theorem duplicate_block_dropped:
  assumes "\<not> skipped_text el1 anc1"
    and "3 \<le> length (block_text el1)"
    and "toLowerCase (block_text el2) = toLowerCase (block_text el1)"
  shows "visit_text (el2, anc2) (fold visit_text between (visit_text (el1, anc1) st)) =
           fold visit_text between (visit_text (el1, anc1) st)
         \<and> (toLowerCase (block_text el1) \<notin> seen st \<longrightarrow>
              lines (visit_text (el1, anc1) st) =
                lines st @ format_text (toLowerCase (tagName el1)) (block_text el1))
         \<and> (toLowerCase (block_text el1) \<in> seen st \<longrightarrow> visit_text (el1, anc1) st = st)
         \<and> (format_text (toLowerCase (tagName el1)) (block_text el1) = [] \<longleftrightarrow>
              toLowerCase (tagName el1) \<notin> {''h1'', ''h2'', ''h3'', ''h4'', ''h5'', ''h6'', ''li'',
                 ''blockquote'', ''td'', ''th'', ''figcaption''}
              \<and> length (block_text el1) \<le> 15)"
proof -
  have 1: "visit_text (el2, anc2) (fold visit_text between (visit_text (el1, anc1) st)) =
          fold visit_text between (visit_text (el1, anc1) st)"
    using assms by (rule later_duplicate_ignored)
  have 2: "toLowerCase (block_text el1) \<notin> seen st \<longrightarrow>
      lines (visit_text (el1, anc1) st) =
        lines st @ format_text (toLowerCase (tagName el1)) (block_text el1)"
    using assms(1,2) by (simp add: visit_text_cases)
  have 3: "toLowerCase (block_text el1) \<in> seen st \<longrightarrow> visit_text (el1, anc1) st = st"
    by (simp add: visit_text_cases)
  have 4: "format_text (toLowerCase (tagName el1)) (block_text el1) = [] \<longleftrightarrow>
      toLowerCase (tagName el1) \<notin> {''h1'', ''h2'', ''h3'', ''h4'', ''h5'', ''h6'', ''li'',
         ''blockquote'', ''td'', ''th'', ''figcaption''}
      \<and> length (block_text el1) \<le> 15"
    by (rule format_text_Nil)
  from 1 2 3 4 show ?thesis by blast
qed

text \<open>
  The heading \<^verbatim>\<open>Hello World\<close> followed by the heading \<^verbatim>\<open>hello world\<close>: only the first is
  in the output.
\<close>

theorem duplicate_block_dropped_witness:
  "\<not> skipped_text h2_hello []
   \<and> 3 \<le> length (block_text h2_hello)
   \<and> toLowerCase (block_text h3_hello) = toLowerCase (block_text h2_hello)
   \<and> toLowerCase (block_text h2_hello) \<notin> seen empty_walk
   \<and> visit_text (h3_hello, []) (visit_text (h2_hello, []) empty_walk) =
        visit_text (h2_hello, []) empty_walk
   \<and> lines (visit_text (h2_hello, []) empty_walk) = [[], ''Hello World'', ''-----------'', []]
   \<and> extractText c4_document = ''Hello World'' @ [NL] @ ''-----------''"
proof -
  have a: "\<not> skipped_text h2_hello []" by code_simp
  have b: "toLowerCase (block_text h3_hello) = toLowerCase (block_text h2_hello)" by code_simp
  have c: "3 \<le> length (block_text h2_hello)" by code_simp
  have d: "toLowerCase (block_text h2_hello) \<notin> seen empty_walk" by code_simp
  have e: "lines empty_walk @ format_text (toLowerCase (tagName h2_hello)) (block_text h2_hello) =
      [[], ''Hello World'', ''-----------'', []]" by code_simp
  have f: "extractText c4_document = ''Hello World'' @ [NL] @ ''-----------''" by code_simp
  from duplicate_block_dropped [OF a c b, of "[]" "[]" empty_walk] d
  have "visit_text (h3_hello, []) (fold visit_text [] (visit_text (h2_hello, []) empty_walk)) =
        fold visit_text [] (visit_text (h2_hello, []) empty_walk)"
    and g: "lines (visit_text (h2_hello, []) empty_walk) =
      lines empty_walk @ format_text (toLowerCase (tagName h2_hello)) (block_text h2_hello)"
    by blast+
  then have h: "visit_text (h3_hello, []) (visit_text (h2_hello, []) empty_walk) =
        visit_text (h2_hello, []) empty_walk" by simp
  from g e have i: "lines (visit_text (h2_hello, []) empty_walk) =
      [[], ''Hello World'', ''-----------'', []]" by (simp only:)
  from a b c d f h i show ?thesis by blast
qed

text \<open>
  The paragraph \<^verbatim>\<open>Hello World\<close> followed by the paragraph \<^verbatim>\<open>hello world\<close>: both are
  selected, their texts differ in letter case only, and the first pushes no line, as its
  text has 11 characters; the output is empty.
\<close>

theorem two_paragraphs_counterexample:
  "body_find text_blocks (remove_each text_noise (in_body [p_hello, p_hello_lower])) =
     [(p_hello, body_anc [p_hello, p_hello_lower]),
      (p_hello_lower, body_anc [p_hello, p_hello_lower])]
   \<and> \<not> skipped_text p_hello (body_anc [p_hello, p_hello_lower])
   \<and> \<not> skipped_text p_hello_lower (body_anc [p_hello, p_hello_lower])
   \<and> block_text p_hello = ''Hello World''
   \<and> block_text p_hello_lower = ''hello world''
   \<and> toLowerCase (block_text p_hello_lower) = toLowerCase (block_text p_hello)
   \<and> lines (visit_text (p_hello, body_anc [p_hello, p_hello_lower]) empty_walk) = []
   \<and> extractText (in_body [p_hello, p_hello_lower]) = []"
  by code_simp

text \<open>
  Claim C5. A block that is not skipped, whose normalised text has three characters or
  more and is not yet in the seen set, is added to the set in lower case, whatever its
  tag pushes. So a \<^verbatim>\<open>p\<close>, \<^verbatim>\<open>article\<close>, \<^verbatim>\<open>section\<close> or \<^verbatim>\<open>main\<close> block of 3 to 15
  characters pushes no line and still makes every later block with the same text, up to
  letter case, a block that changes nothing.
\<close>

theorem short_paragraph_registered:
  assumes "\<not> skipped_text el anc"
    and "3 \<le> length (block_text el)"
    and "toLowerCase (block_text el) \<notin> seen st"
  shows "visit_text (el, anc) st =
           \<lparr>lines = lines st @ format_text (toLowerCase (tagName el)) (block_text el),
            seen = insert (toLowerCase (block_text el)) (seen st)\<rparr>
         \<and> (toLowerCase (tagName el) \<in> {''p'', ''article'', ''section'', ''main''}
              \<and> length (block_text el) \<le> 15 \<longrightarrow>
              lines (visit_text (el, anc) st) = lines st
              \<and> (\<forall>el' anc' between.
                   toLowerCase (block_text el') = toLowerCase (block_text el) \<longrightarrow>
                   visit_text (el', anc') (fold visit_text between (visit_text (el, anc) st)) =
                     fold visit_text between (visit_text (el, anc) st)))"
proof -
  have 1: "visit_text (el, anc) st =
           \<lparr>lines = lines st @ format_text (toLowerCase (tagName el)) (block_text el),
            seen = insert (toLowerCase (block_text el)) (seen st)\<rparr>"
    using assms by (simp add: visit_text_cases)
  have 2: "toLowerCase (tagName el) \<in> {''p'', ''article'', ''section'', ''main''}
       \<and> length (block_text el) \<le> 15 \<longrightarrow> lines (visit_text (el, anc) st) = lines st"
    using assms by (auto simp: visit_text_cases format_text_def)
  have 3: "\<forall>el' anc' between.
      toLowerCase (block_text el') = toLowerCase (block_text el) \<longrightarrow>
      visit_text (el', anc') (fold visit_text between (visit_text (el, anc) st)) =
        fold visit_text between (visit_text (el, anc) st)"
    using assms(1,2) later_duplicate_ignored by blast
  from 1 2 3 show ?thesis by blast
qed

text \<open>
  The paragraph \<^verbatim>\<open>Short text\<close> prints nothing and silences the heading \<^verbatim>\<open>SHORT TEXT\<close>
  after it, which alone would print \<^verbatim>\<open>[SHORT TEXT]\<close>.
\<close>

theorem short_paragraph_registered_witness:
  "\<not> skipped_text p_short []
   \<and> 3 \<le> length (block_text p_short)
   \<and> toLowerCase (block_text p_short) \<notin> seen empty_walk
   \<and> toLowerCase (tagName p_short) \<in> {''p'', ''article'', ''section'', ''main''}
   \<and> length (block_text p_short) \<le> 15
   \<and> toLowerCase (block_text h3_short) = toLowerCase (block_text p_short)
   \<and> visit_text (p_short, []) empty_walk = \<lparr>lines = [], seen = {''short text''}\<rparr>
   \<and> visit_text (h3_short, []) (visit_text (p_short, []) empty_walk) =
        visit_text (p_short, []) empty_walk
   \<and> extractText c5_document = []
   \<and> extractText (in_body [h3_short]) = ''[SHORT TEXT]''"
proof -
  have a: "\<not> skipped_text p_short []" by code_simp
  have b: "3 \<le> length (block_text p_short)" by code_simp
  have c: "toLowerCase (block_text p_short) \<notin> seen empty_walk" by code_simp
  have d: "toLowerCase (tagName p_short) \<in> {''p'', ''article'', ''section'', ''main''}"
    by code_simp
  have e: "length (block_text p_short) \<le> 15" by code_simp
  have f: "toLowerCase (block_text h3_short) = toLowerCase (block_text p_short)" by code_simp
  have g: "\<lparr>lines = lines empty_walk @ format_text (toLowerCase (tagName p_short)) (block_text p_short),
            seen = insert (toLowerCase (block_text p_short)) (seen empty_walk)\<rparr> =
      \<lparr>lines = [], seen = {''short text''}\<rparr>" by code_simp
  have h: "extractText c5_document = []" by code_simp
  have i: "extractText (in_body [h3_short]) = ''[SHORT TEXT]''" by code_simp
  note t = short_paragraph_registered [OF a b c]
  from t have v: "visit_text (p_short, []) empty_walk =
      \<lparr>lines = lines empty_walk @ format_text (toLowerCase (tagName p_short)) (block_text p_short),
       seen = insert (toLowerCase (block_text p_short)) (seen empty_walk)\<rparr>"
    by (elim conjE)
  from t d e have "\<forall>el' anc' between.
      toLowerCase (block_text el') = toLowerCase (block_text p_short) \<longrightarrow>
      visit_text (el', anc') (fold visit_text between (visit_text (p_short, []) empty_walk)) =
        fold visit_text between (visit_text (p_short, []) empty_walk)"
    by blast
  with f have w: "visit_text (h3_short, []) (fold visit_text [] (visit_text (p_short, []) empty_walk)) =
        fold visit_text [] (visit_text (p_short, []) empty_walk)"
    by blast
  from v g have v': "visit_text (p_short, []) empty_walk = \<lparr>lines = [], seen = {''short text''}\<rparr>"
    by (simp only:)
  from w have w': "visit_text (h3_short, []) (visit_text (p_short, []) empty_walk) =
        visit_text (p_short, []) empty_walk" by simp
  from a b c d e f v' w' h i show ?thesis by blast
qed

section \<open>Length gates\<close>

lemma block_text_wrap: "length (block_text el) \<le> 80 \<Longrightarrow> wordWrap (block_text el) 80 = block_text el"
  unfolding block_text_def by (rule wordWrap_fits)

lemma collapse_no_newline:
  "NL \<notin> set t \<Longrightarrow> collapse_newlines 0 (t @ [NL]) = t @ [NL]"
  by (induction t) auto

lemma normalize_no_newline: "NL \<notin> set (normalize x)"
proof
  assume "NL \<in> set (normalize x)"
  then have "NL \<in> set (join [SP] (tokens [] x))" by (simp add: normalize_tokens)
  moreover have "\<forall>w\<in>set ws. \<forall>c\<in>set w. \<not> is_space c \<Longrightarrow> NL \<notin> set (join [SP] ws)" for ws
    by (induction "[SP]" ws rule: join.induct) (auto simp: is_space_def)
  moreover have "\<forall>w\<in>set (tokens [] x). \<forall>c\<in>set w. \<not> is_space c"
    using tokens_words [of "[]" x] by simp
  ultimately show False by blast
qed

lemma trim_trimmed:
  assumes "t \<noteq> []" and "\<not> is_space (hd t)" and "\<not> is_space (last t)"
  shows "trim t = t" and "trim (t @ [NL]) = t"
proof -
  from assms(1,2) have d: "dropWhile is_space t = t" by (cases t) auto
  from assms(1,3) have r: "drop_right t = t"
    by (cases t rule: rev_cases) (auto simp: drop_right_snoc)
  from d r show "trim t = t" by (simp add: trim_drop_right)
  from assms(1,2) have "dropWhile is_space (t @ [NL]) = t @ [NL]" by (cases t) auto
  moreover have "drop_right (t @ [NL]) = drop_right t"
    by (rule drop_right_spaces) (simp add: is_space_def)
  ultimately show "trim (t @ [NL]) = t" using r by (simp add: trim_drop_right)
qed

lemma normalize_edges:
  assumes "normalize x \<noteq> []"
  shows "\<not> is_space (hd (normalize x))" and "\<not> is_space (last (normalize x))"
proof -
  from assms obtain c cs where "trim (squeeze_ws False x) = c # cs"
    by (cases "normalize x") (auto simp: normalize_def)
  then show "\<not> is_space (hd (normalize x))" using trim_hd by (simp add: normalize_def)
  from assms obtain c cs where "trim (squeeze_ws False x) = cs @ [c]"
    by (cases "normalize x" rule: rev_cases) (auto simp: normalize_def)
  then show "\<not> is_space (last (normalize x))" using trim_last by (simp add: normalize_def)
qed

lemma cleanup_text_one_block:
  "normalize x \<noteq> [] \<Longrightarrow> cleanup_text [normalize x, []] = normalize x"
  by (simp add: cleanup_text_def strip_edges_trim collapse_no_newline normalize_no_newline
      trim_trimmed normalize_edges)

lemma cleanup_structured_one_block:
  "normalize x \<noteq> [] \<Longrightarrow> cleanup_structured [normalize x, []] = normalize x"
  by (simp add: cleanup_structured_def collapse_no_newline normalize_no_newline
      trim_trimmed normalize_edges)

lemma lone_block_text_walk:
  "fold visit_text (body_find text_blocks (remove_each text_noise (in_body [lone_block ''p'' s])))
     (title_block (remove_each text_noise (in_body [lone_block ''p'' s]))) =
   visit_text (lone_block ''p'' s, body_anc [lone_block ''p'' s]) empty_walk"
  by (simp add: remove_each_def text_noise_def in_body_def lone_block_def body_find_def
      text_blocks_def matches_any_def title_block_def title_text_def select_all_def
      empty_walk_def body_anc_def trim_def)

lemma lone_block_not_skipped: "\<not> skipped_text (lone_block ''p'' s) (body_anc ns)"
  by (simp add: skipped_text_def parents_def text_containers_def body_anc_def matches_any_def)

lemma lower_p: "toLowerCase ''p'' = ''p''"
  by code_simp

lemma lower_div: "toLowerCase ''div'' = ''div''"
  by code_simp

lemma lone_p_structured_walk:
  "fold visit_structured
     (body_find structured_blocks (remove_each structured_noise (in_body [lone_block ''p'' s])))
     (structured_title (remove_each structured_noise (in_body [lone_block ''p'' s]))) =
   visit_structured (lone_block ''p'' s, body_anc [lone_block ''p'' s]) []"
  by (simp add: remove_each_def structured_noise_def in_body_def lone_block_def body_find_def
      structured_blocks_def matches_any_def structured_title_def title_text_def select_all_def
      body_anc_def trim_def)

lemma lone_div_structured_walk:
  "fold visit_structured
     (body_find structured_blocks (remove_each structured_noise (in_body [lone_block ''div'' s])))
     (structured_title (remove_each structured_noise (in_body [lone_block ''div'' s]))) =
   visit_structured (lone_block ''div'' s, body_anc [lone_block ''div'' s]) []"
  by (simp add: remove_each_def structured_noise_def in_body_def lone_block_def body_find_def
      structured_blocks_def matches_any_def structured_title_def title_text_def select_all_def
      body_anc_def trim_def)

lemma lone_block_structured_walk:
  "tg \<in> {''p'', ''div''} \<Longrightarrow>
   fold visit_structured
     (body_find structured_blocks (remove_each structured_noise (in_body [lone_block tg s])))
     (structured_title (remove_each structured_noise (in_body [lone_block tg s]))) =
   visit_structured (lone_block tg s, body_anc [lone_block tg s]) []"
  using lone_p_structured_walk lone_div_structured_walk by blast

lemma lone_block_structured_not_skipped: "\<not> skipped_structured (lone_block tg s) (body_anc ns)"
  by (simp add: skipped_structured_def parents_def structured_containers_def body_anc_def
      matches_any_def)

lemma lone_p_text_output:
  assumes "length (block_text (lone_block ''p'' s)) \<le> 80"
  shows "extractText (in_body [lone_block ''p'' s]) =
     (if 15 < length (block_text (lone_block ''p'' s)) then block_text (lone_block ''p'' s) else [])"
proof -
  let ?el = "lone_block ''p'' s"
  have tag: "toLowerCase (tagName ?el) = ''p''" by (simp add: lone_block_def lower_p)
  have e: "extractText (in_body [?el]) =
      cleanup_text (lines (visit_text (?el, body_anc [?el]) empty_walk))"
    by (simp add: extractText_def lone_block_text_walk)
  show ?thesis
  proof (cases "15 < length (block_text ?el)")
    case True
    then have ne: "block_text ?el \<noteq> []" by auto
    have "lines (visit_text (?el, body_anc [?el]) empty_walk) = [block_text ?el, []]"
      using True assms
      by (simp add: visit_text_cases tag format_text_def empty_walk_def lone_block_not_skipped
          block_text_wrap)
    moreover have "cleanup_text [block_text ?el, []] = block_text ?el"
      using ne unfolding block_text_def by (rule cleanup_text_one_block)
    ultimately show ?thesis using True e by simp
  next
    case False
    then have "lines (visit_text (?el, body_anc [?el]) empty_walk) = []"
      by (simp add: visit_text_cases tag format_text_def empty_walk_def)
    with False e show ?thesis by (simp add: cleanup_text_def trim_def strip_edges_def)
  qed
qed

lemma lone_block_structured_output:
  assumes "tg \<in> {''p'', ''div''}"
  shows "extractStructuredText (in_body [lone_block tg s]) =
     (if 20 < length (structured_text (lone_block tg s)) then structured_text (lone_block tg s)
      else [])"
proof -
  let ?el = "lone_block tg s"
  have tag: "toLowerCase (tagName ?el) \<in> {''p'', ''div''}"
    using assms by (auto simp: lone_block_def lower_p lower_div)
  have e: "extractStructuredText (in_body [?el]) =
      cleanup_structured (visit_structured (?el, body_anc [?el]) [])"
    using assms by (simp add: extractStructuredText_def lone_block_structured_walk)
  show ?thesis
  proof (cases "20 < length (structured_text ?el)")
    case True
    then have ne: "structured_text ?el \<noteq> []" by auto
    have "visit_structured (?el, body_anc [?el]) [] = [structured_text ?el, []]"
      using True tag
      by (auto simp: visit_structured_cases format_structured_def
          lone_block_structured_not_skipped)
    moreover have "cleanup_structured [structured_text ?el, []] = structured_text ?el"
      using ne unfolding structured_text_def by (rule cleanup_structured_one_block)
    ultimately show ?thesis using True e by simp
  next
    case False
    then have "visit_structured (?el, body_anc [?el]) [] = []"
      using tag by (auto simp: visit_structured_cases format_structured_def)
    with False e show ?thesis by (simp add: cleanup_structured_def trim_def)
  qed
qed

text \<open>
  Claim C6. In the readable-text pipeline a \<^verbatim>\<open>p\<close> that reaches the formatter (not skipped,
  its text not seen before) pushes nothing when its normalised text has exactly 15
  characters, and pushes its text and a blank line when it has exactly 16. In the
  structured pipeline a \<^verbatim>\<open>p\<close> or \<^verbatim>\<open>div\<close> that is not skipped pushes nothing at exactly
  20 characters, and its text and a blank line at exactly 21. For a document whose body
  holds one such element with one text in it, the pipeline returns the empty string at 15
  (at 20) characters and the normalised text at 16 (at 21).
\<close>

theorem length_gates:
  "(\<not> skipped_text el anc \<and> toLowerCase (tagName el) = ''p''
      \<and> toLowerCase (block_text el) \<notin> seen st \<longrightarrow>
      (length (block_text el) = 15 \<longrightarrow> lines (visit_text (el, anc) st) = lines st)
      \<and> (length (block_text el) = 16 \<longrightarrow>
            lines (visit_text (el, anc) st) = lines st @ [block_text el, []]))
   \<and> (\<not> skipped_structured el' anc' \<and> toLowerCase (tagName el') \<in> {''p'', ''div''} \<longrightarrow>
      (length (structured_text el') = 20 \<longrightarrow> visit_structured (el', anc') lns = lns)
      \<and> (length (structured_text el') = 21 \<longrightarrow>
            visit_structured (el', anc') lns = lns @ [structured_text el', []]))
   \<and> (length (block_text (lone_block ''p'' s)) = 15 \<longrightarrow>
        extractText (in_body [lone_block ''p'' s]) = [])
   \<and> (length (block_text (lone_block ''p'' s)) = 16 \<longrightarrow>
        extractText (in_body [lone_block ''p'' s]) = block_text (lone_block ''p'' s))
   \<and> (tg \<in> {''p'', ''div''} \<and> length (structured_text (lone_block tg s')) = 20 \<longrightarrow>
        extractStructuredText (in_body [lone_block tg s']) = [])
   \<and> (tg \<in> {''p'', ''div''} \<and> length (structured_text (lone_block tg s')) = 21 \<longrightarrow>
        extractStructuredText (in_body [lone_block tg s']) = structured_text (lone_block tg s'))"
proof -
  have 1: "length (block_text el) = 15 \<longrightarrow> lines (visit_text (el, anc) st) = lines st"
    if "\<not> skipped_text el anc" "toLowerCase (tagName el) = ''p''"
    using that by (simp add: visit_text_cases format_text_def headings_def)
  have 2: "length (block_text el) = 16 \<longrightarrow>
      lines (visit_text (el, anc) st) = lines st @ [block_text el, []]"
    if "\<not> skipped_text el anc" "toLowerCase (tagName el) = ''p''"
      "toLowerCase (block_text el) \<notin> seen st"
    using that by (simp add: visit_text_cases format_text_def block_text_wrap)
  have 3: "length (structured_text el') = 20 \<longrightarrow> visit_structured (el', anc') lns = lns"
    if "\<not> skipped_structured el' anc'" "toLowerCase (tagName el') \<in> {''p'', ''div''}"
    using that by (auto simp: visit_structured_cases format_structured_def)
  have 4: "length (structured_text el') = 21 \<longrightarrow>
      visit_structured (el', anc') lns = lns @ [structured_text el', []]"
    if "\<not> skipped_structured el' anc'" "toLowerCase (tagName el') \<in> {''p'', ''div''}"
    using that by (auto simp: visit_structured_cases format_structured_def)
  have 5: "extractText (in_body [lone_block ''p'' s]) = []"
    if "length (block_text (lone_block ''p'' s)) = 15"
    using that by (simp add: lone_p_text_output)
  have 6: "extractText (in_body [lone_block ''p'' s]) = block_text (lone_block ''p'' s)"
    if "length (block_text (lone_block ''p'' s)) = 16"
    using that by (simp add: lone_p_text_output)
  have 7: "extractStructuredText (in_body [lone_block tg s']) = []"
    if "tg \<in> {''p'', ''div''}" "length (structured_text (lone_block tg s')) = 20"
    using that by (simp only: lone_block_structured_output) simp
  have 8: "extractStructuredText (in_body [lone_block tg s']) = structured_text (lone_block tg s')"
    if "tg \<in> {''p'', ''div''}" "length (structured_text (lone_block tg s')) = 21"
    using that by (simp only: lone_block_structured_output) simp
  from 1 2 3 4 5 6 7 8 show ?thesis by blast
qed

text \<open>
  Paragraphs of 15 and 16 characters and \<^verbatim>\<open>div\<close> elements of 20 and 21, in the callbacks
  and through the whole pipelines.
\<close>

theorem length_gates_witness:
  "\<not> skipped_text p15 [] \<and> toLowerCase (tagName p15) = ''p''
   \<and> toLowerCase (block_text p15) \<notin> seen empty_walk \<and> length (block_text p15) = 15
   \<and> lines (visit_text (p15, []) empty_walk) = []
   \<and> \<not> skipped_text p16 [] \<and> toLowerCase (tagName p16) = ''p''
   \<and> toLowerCase (block_text p16) \<notin> seen empty_walk \<and> length (block_text p16) = 16
   \<and> lines (visit_text (p16, []) empty_walk) = [''exactly 16 chars'', []]
   \<and> \<not> skipped_structured div20 [] \<and> toLowerCase (tagName div20) \<in> {''p'', ''div''}
   \<and> length (structured_text div20) = 20
   \<and> visit_structured (div20, []) [] = []
   \<and> \<not> skipped_structured div21 [] \<and> toLowerCase (tagName div21) \<in> {''p'', ''div''}
   \<and> length (structured_text div21) = 21
   \<and> visit_structured (div21, []) [] = [''twenty-one characters'', []]
   \<and> extractText (in_body [p15]) = [] \<and> extractText (in_body [p16]) = ''exactly 16 chars''
   \<and> extractStructuredText (in_body [div20]) = []
   \<and> extractStructuredText (in_body [div21]) = ''twenty-one characters''"
proof -
  have a: "\<not> skipped_text p15 [] \<and> toLowerCase (tagName p15) = ''p''
      \<and> toLowerCase (block_text p15) \<notin> seen empty_walk" by code_simp
  have a': "length (block_text p15) = 15" by code_simp
  have b: "\<not> skipped_text p16 [] \<and> toLowerCase (tagName p16) = ''p''
      \<and> toLowerCase (block_text p16) \<notin> seen empty_walk" by code_simp
  have b': "length (block_text p16) = 16" by code_simp
  have c: "\<not> skipped_structured div20 [] \<and> toLowerCase (tagName div20) \<in> {''p'', ''div''}"
    by code_simp
  have c': "length (structured_text div20) = 20" by code_simp
  have d: "\<not> skipped_structured div21 [] \<and> toLowerCase (tagName div21) \<in> {''p'', ''div''}"
    by code_simp
  have d': "length (structured_text div21) = 21" by code_simp
  have e: "lines empty_walk = []" "block_text p16 = ''exactly 16 chars''"
    "structured_text div21 = ''twenty-one characters''" by code_simp+
  have f: "extractText (in_body [p15]) = []" "extractText (in_body [p16]) = ''exactly 16 chars''"
    "extractStructuredText (in_body [div20]) = []"
    "extractStructuredText (in_body [div21]) = ''twenty-one characters''" by code_simp+
  from length_gates [of p15 "[]" empty_walk div20 "[]" "[]"] a a' c c'
  have 1: "lines (visit_text (p15, []) empty_walk) = lines empty_walk"
    and 3: "visit_structured (div20, []) [] = []" by blast+
  from length_gates [of p16 "[]" empty_walk div21 "[]" "[]"] b b' d d'
  have 2: "lines (visit_text (p16, []) empty_walk) = lines empty_walk @ [block_text p16, []]"
    and 4: "visit_structured (div21, []) [] = [] @ [structured_text div21, []]" by blast+
  from 1 2 3 4 e have "lines (visit_text (p15, []) empty_walk) = []"
    "lines (visit_text (p16, []) empty_walk) = [''exactly 16 chars'', []]"
    "visit_structured (div20, []) [] = []"
    "visit_structured (div21, []) [] = [''twenty-one characters'', []]" by simp_all
  with a a' b b' c c' d d' f show ?thesis by blast
qed

section \<open>The skip rule\<close>

lemma headings_not_skipped: "toLowerCase (tagName el) \<in> set headings \<Longrightarrow> \<not> skipped_text el anc"
  by (simp add: skipped_text_def)

lemma text_content_append: "text_content (xs @ ys) = text_content xs @ text_content ys"
  by (induction xs rule: text_content.induct) auto

text \<open>
  Claim C8, as the code has it. In the structured pipeline a \<^verbatim>\<open>span\<close> pushes no line,
  whatever its ancestors, and the text of a \<^verbatim>\<open>span\<close> child is part of the text extracted
  for its parent. In the readable-text pipeline an \<^verbatim>\<open>h2\<close> is never skipped by the skip
  rule, whatever its ancestors; it then pushes a blank line, its text, the underline and a
  blank line unless its normalised text is shorter than three characters or already in
  the seen set.
\<close>

theorem skip_rule_cases:
  "(toLowerCase (tagName el) = ''span'' \<longrightarrow> visit_structured (el, anc) lns = lns)
   \<and> text_without_children structured_inner_noise (Element t a (pre @ Element ''span'' a' cs # post)) =
       text_without_children structured_inner_noise (Element t a pre) @ text_content cs
         @ text_without_children structured_inner_noise (Element t a post)
   \<and> (toLowerCase (tagName el') = ''h2'' \<longrightarrow>
        \<not> skipped_text el' anc'
        \<and> visit_text (el', anc') st =
            (if length (block_text el') < 3 \<or> toLowerCase (block_text el') \<in> seen st then st
             else \<lparr>lines = lines st @ [[], block_text el',
                      underline (CHR ''-'') (length (block_text el')) 40, []],
                   seen = insert (toLowerCase (block_text el')) (seen st)\<rparr>))"
proof -
  have 1: "toLowerCase (tagName el) = ''span'' \<longrightarrow> visit_structured (el, anc) lns = lns"
    by (simp add: visit_structured_cases format_structured_def)
  have 2: "text_without_children structured_inner_noise (Element t a (pre @ Element ''span'' a' cs # post)) =
       text_without_children structured_inner_noise (Element t a pre) @ text_content cs
         @ text_without_children structured_inner_noise (Element t a post)"
    by (simp add: text_without_children_def text_content_append structured_inner_noise_def
        matches_any_def)
  have 3: "\<not> skipped_text el' anc'" if "toLowerCase (tagName el') = ''h2''"
    using that by (intro headings_not_skipped) (simp add: headings_def)
  have 4: "visit_text (el', anc') st =
            (if length (block_text el') < 3 \<or> toLowerCase (block_text el') \<in> seen st then st
             else \<lparr>lines = lines st @ [[], block_text el',
                      underline (CHR ''-'') (length (block_text el')) 40, []],
                   seen = insert (toLowerCase (block_text el')) (seen st)\<rparr>)"
    if "toLowerCase (tagName el') = ''h2''"
    using that 3 by (simp add: visit_text_cases format_text_def)
  from 1 2 3 4 show ?thesis by blast
qed

text \<open>
  A \<^verbatim>\<open>span\<close> in a paragraph; and a heading in a quote that also holds text of its own,
  where the heading is printed after the quote.
\<close>

theorem skip_rule_cases_witness:
  "toLowerCase (tagName span_inner) = ''span''
   \<and> visit_structured (span_inner, [p_with_span]) [''A paragraph that has inline words inside it.'', []] =
       [''A paragraph that has inline words inside it.'', []]
   \<and> extractStructuredText (in_body [p_with_span]) = ''A paragraph that has inline words inside it.''
   \<and> toLowerCase (tagName h2_famous) = ''h2''
   \<and> \<not> skipped_text h2_famous [blockquote_mixed]
   \<and> lines (visit_text (h2_famous, [blockquote_mixed]) (visit_text (blockquote_mixed, []) empty_walk)) =
       [[], ''  '' @ [CHR 0x22] @ ''Famous wordsTo be or not to be'' @ [CHR 0x22], [],
        [], ''Famous words'', ''------------'', []]
   \<and> extractText (in_body [blockquote_mixed]) =
       [CHR 0x22] @ ''Famous wordsTo be or not to be'' @ [CHR 0x22] @ [NL, NL]
         @ ''Famous words'' @ [NL] @ ''------------''"
proof -
  have a: "toLowerCase (tagName span_inner) = ''span''" by code_simp
  have b: "toLowerCase (tagName h2_famous) = ''h2''" by code_simp
  have c: "extractStructuredText (in_body [p_with_span]) = ''A paragraph that has inline words inside it.''"
    by code_simp
  have d: "extractText (in_body [blockquote_mixed]) =
       [CHR 0x22] @ ''Famous wordsTo be or not to be'' @ [CHR 0x22] @ [NL, NL]
         @ ''Famous words'' @ [NL] @ ''------------''"
    by code_simp
  let ?st = "visit_text (blockquote_mixed, []) empty_walk"
  have e: "lines (if length (block_text h2_famous) < 3 \<or> toLowerCase (block_text h2_famous) \<in> seen ?st
             then ?st
             else \<lparr>lines = lines ?st @ [[], block_text h2_famous,
                      underline (CHR ''-'') (length (block_text h2_famous)) 40, []],
                   seen = insert (toLowerCase (block_text h2_famous)) (seen ?st)\<rparr>) =
       [[], ''  '' @ [CHR 0x22] @ ''Famous wordsTo be or not to be'' @ [CHR 0x22], [],
        [], ''Famous words'', ''------------'', []]"
    by code_simp
  note t = skip_rule_cases [of span_inner "[p_with_span]"
      "[''A paragraph that has inline words inside it.'', []]" _ _ _ _ _ _
      h2_famous "[blockquote_mixed]" ?st]
  from t a have 1: "visit_structured (span_inner, [p_with_span])
       [''A paragraph that has inline words inside it.'', []] =
       [''A paragraph that has inline words inside it.'', []]" by blast
  from t b have 2: "\<not> skipped_text h2_famous [blockquote_mixed]"
    and 3: "visit_text (h2_famous, [blockquote_mixed]) ?st =
       (if length (block_text h2_famous) < 3 \<or> toLowerCase (block_text h2_famous) \<in> seen ?st
             then ?st
             else \<lparr>lines = lines ?st @ [[], block_text h2_famous,
                      underline (CHR ''-'') (length (block_text h2_famous)) 40, []],
                   seen = insert (toLowerCase (block_text h2_famous)) (seen ?st)\<rparr>)"
    by blast+
  from 3 e have 4: "lines (visit_text (h2_famous, [blockquote_mixed]) ?st) =
       [[], ''  '' @ [CHR 0x22] @ ''Famous wordsTo be or not to be'' @ [CHR 0x22], [],
        [], ''Famous words'', ''------------'', []]" by (simp only:)
  from a b c d 1 2 4 show ?thesis by blast
qed

text \<open>
  A heading that is all a quote holds is not printed as a heading: the quote is visited
  first and registers the same text, and the visit of the heading changes nothing.
\<close>

theorem lone_heading_counterexample:
  "extractText c8_document = [CHR 0x22] @ ''Only a heading'' @ [CHR 0x22]
   \<and> body_find text_blocks (remove_each text_noise c8_document) =
       [(blockquote_only_h2, body_anc [blockquote_only_h2]),
        (Element ''h2'' [] [Text ''Only a heading''], blockquote_only_h2 # body_anc [blockquote_only_h2])]
   \<and> \<not> skipped_text (Element ''h2'' [] [Text ''Only a heading''])
         (blockquote_only_h2 # body_anc [blockquote_only_h2])
   \<and> visit_text (Element ''h2'' [] [Text ''Only a heading''],
          blockquote_only_h2 # body_anc [blockquote_only_h2])
        (visit_text (blockquote_only_h2, body_anc [blockquote_only_h2]) empty_walk) =
       visit_text (blockquote_only_h2, body_anc [blockquote_only_h2]) empty_walk"
  by code_simp

section \<open>The noise filter\<close>

lemma remove_nodes_twice:
  "remove_nodes P (remove_nodes Q ns) = remove_nodes (\<lambda>t a. P t a \<or> Q t a) ns"
  by (induction Q ns rule: remove_nodes.induct) auto

lemma remove_nodes_none: "remove_nodes (\<lambda>t a. False) ns = ns"
  by (induction ns rule: text_content.induct) auto

lemma matches_any_Nil: "matches_any [] = (\<lambda>t a. False)"
  by (simp add: matches_any_def fun_eq_iff)

lemma matches_any_Cons: "matches_any (s # ss) = (\<lambda>t a. matches_any ss t a \<or> matches s t a)"
  by (auto simp: matches_any_def fun_eq_iff)

lemma remove_each_all: "remove_each sels doc = remove_nodes (matches_any sels) doc"
proof (induction sels arbitrary: doc)
  case Nil
  show ?case by (simp add: remove_each_def matches_any_Nil remove_nodes_none)
next
  case (Cons s ss)
  have "remove_each (s # ss) doc = remove_each ss (remove_nodes (matches s) doc)"
    by (simp add: remove_each_def)
  also have "\<dots> = remove_nodes (matches_any ss) (remove_nodes (matches s) doc)"
    by (rule Cons.IH)
  also have "\<dots> = remove_nodes (matches_any (s # ss)) doc"
    by (simp only: remove_nodes_twice matches_any_Cons)
  finally show ?case .
qed

lemma absent_remove_nodes: "absent P (remove_nodes P ns)"
  by (induction P ns rule: remove_nodes.induct) auto

lemma absent_weaken: "absent P ns \<Longrightarrow> (\<And>t a. Q t a \<Longrightarrow> P t a) \<Longrightarrow> absent Q ns"
  by (induction P ns rule: absent.induct) auto

lemma absent_unchanged: "absent P ns \<Longrightarrow> remove_nodes P ns = ns"
  by (induction P ns rule: absent.induct) auto

lemma absent_filter: "absent P ns \<Longrightarrow> absent P (filter f ns)"
  by (induction P ns rule: absent.induct) auto

lemma absent_elements:
  "absent P ns \<Longrightarrow> (el, anc') \<in> set (elements ns anc) \<Longrightarrow>
   \<not> (case el of Element t a cs \<Rightarrow> P t a | _ \<Rightarrow> False) \<and> absent P (children el)"
  by (induction ns anc rule: elements.induct) auto

lemma elements_are_elements:
  "(el, anc') \<in> set (elements ns anc) \<Longrightarrow> \<exists>t a cs. el = Element t a cs"
  by (induction ns anc rule: elements.induct) auto





lemma inner_noise_split:
  "node_matches text_inner_noise c =
     (node_matches (map Tag [''script'', ''style'', ''nav'', ''footer'', ''header'']) c
      \<or> node_matches [Tag ''aside''] c)"
  by (cases c) (auto simp: text_inner_noise_def matches_any_def)

lemma absent_top: "absent P ns \<Longrightarrow> c \<in> set ns \<Longrightarrow> \<not> (case c of Element t a cs \<Rightarrow> P t a | _ \<Rightarrow> False)"
  by (induction P ns rule: absent.induct) auto

lemma filtered_element_text:
  assumes "(el, anc) \<in> set (elements (remove_each text_noise doc) [])"
  shows "text_without_children text_inner_noise el =
     text_content (remove_nodes (matches_any (map Tag [''script'', ''style'', ''nav'', ''footer'', ''header'']))
       (filter (\<lambda>c. \<not> node_matches [Tag ''aside''] c) (children el)))"
proof -
  let ?five = "matches_any (map Tag [''script'', ''style'', ''nav'', ''footer'', ''header''])"
  have "absent (matches_any text_noise) (remove_each text_noise doc)"
    by (simp add: remove_each_all absent_remove_nodes)
  then have "absent (matches_any text_noise) (children el)"
    using assms absent_elements by blast
  then have five: "absent ?five (children el)"
    by (rule absent_weaken) (auto simp: matches_any_def text_noise_def)
  have "\<not> node_matches (map Tag [''script'', ''style'', ''nav'', ''footer'', ''header'']) c"
    if "c \<in> set (children el)" for c
    using absent_top [OF five that] by (cases c) simp_all
  then have "filter (\<lambda>c. \<not> node_matches text_inner_noise c) (children el) =
      filter (\<lambda>c. \<not> node_matches [Tag ''aside''] c) (children el)"
    by (intro filter_cong) (auto simp: inner_noise_split)
  moreover have "remove_nodes ?five (filter (\<lambda>c. \<not> node_matches [Tag ''aside''] c) (children el)) =
      filter (\<lambda>c. \<not> node_matches [Tag ''aside''] c) (children el)"
    using five by (intro absent_unchanged absent_filter)
  ultimately show ?thesis by (simp add: text_without_children_def)
qed

text \<open>
  Claim C3, as the code has it. For every candidate of the readable-text walk, the text
  taken from it before normalisation is the text of its children without the \<^verbatim>\<open>aside\<close>
  elements among them (the children, not the deeper descendants) and without any
  \<^verbatim>\<open>script\<close>, \<^verbatim>\<open>style\<close>, \<^verbatim>\<open>nav\<close>, \<^verbatim>\<open>footer\<close> or \<^verbatim>\<open>header\<close> at any depth, which the
  noise filter has removed from the whole document before.
\<close>

theorem inner_noise_exclusion:
  "\<forall>(el, anc) \<in> set (body_find text_blocks (remove_each text_noise doc)).
     text_without_children text_inner_noise el =
       text_content
         (remove_nodes (matches_any (map Tag [''script'', ''style'', ''nav'', ''footer'', ''header'']))
            (filter (\<lambda>c. \<not> node_matches [Tag ''aside''] c) (children el)))"
  using filtered_element_text by (auto simp: body_find_def)

text \<open>
  A section with an \<^verbatim>\<open>aside\<close> child, and a script and a header further down.
\<close>

theorem inner_noise_exclusion_witness:
  "(section_mixed_filtered, body_anc [section_mixed_filtered])
     \<in> set (body_find text_blocks (remove_each text_noise (in_body [section_mixed])))
   \<and> text_without_children text_inner_noise section_mixed_filtered = ''Kept text and the main text''
   \<and> extractText (in_body [section_mixed]) = ''Kept text and the main text''"
proof -
  have a: "(section_mixed_filtered, body_anc [section_mixed_filtered])
     \<in> set (body_find text_blocks (remove_each text_noise (in_body [section_mixed])))"
    by code_simp
  have b: "text_content
         (remove_nodes (matches_any (map Tag [''script'', ''style'', ''nav'', ''footer'', ''header'']))
            (filter (\<lambda>c. \<not> node_matches [Tag ''aside''] c) (children section_mixed_filtered))) =
      ''Kept text and the main text''"
    by code_simp
  have c: "extractText (in_body [section_mixed]) = ''Kept text and the main text''"
    by code_simp
  from inner_noise_exclusion [of "in_body [section_mixed]"] a
  have "text_without_children text_inner_noise section_mixed_filtered =
       text_content
         (remove_nodes (matches_any (map Tag [''script'', ''style'', ''nav'', ''footer'', ''header'']))
            (filter (\<lambda>c. \<not> node_matches [Tag ''aside''] c) (children section_mixed_filtered)))"
    by blast
  with b have "text_without_children text_inner_noise section_mixed_filtered =
      ''Kept text and the main text''" by (simp only:)
  with a c show ?thesis by blast
qed

text \<open>
  An \<^verbatim>\<open>aside\<close> two levels below a section stays in the text of the section.
\<close>

theorem deep_aside_counterexample:
  "(section_deep_aside, body_anc [section_deep_aside])
     \<in> set (body_find text_blocks (remove_each text_noise (in_body [section_deep_aside])))
   \<and> text_without_children text_inner_noise section_deep_aside = ''Related linksMain section text here''
   \<and> text_content (remove_nodes (matches_any text_inner_noise) (children section_deep_aside)) =
       ''Main section text here''
   \<and> extractText (in_body [section_deep_aside]) = ''Related linksMain section text here''"
  by code_simp

section \<open>Validation in the request handler\<close>

lemma POST_object:
  "POST new_URL (Some (JObj kvs)) =
     (case map_of (rev kvs) ''url'' of
        None \<Rightarrow> Respond (Literal ''URL is required'') 400
      | Some url \<Rightarrow>
          if \<not> truthy url then Respond (Literal ''URL is required'') 400
          else (case new_URL url of
                  None \<Rightarrow> Respond (Literal ''Invalid URL format'') 400
                | Some parsedUrl \<Rightarrow>
                    if protocol parsedUrl \<notin> {''http:'', ''https:''}
                    then Respond (Literal ''Invalid URL format'') 400
                    else FetchAndExtract (href parsedUrl)))"
  by (simp add: POST_def split: option.splits)

lemma POST_no_member:
  "\<forall>kvs. v \<noteq> JObj kvs \<Longrightarrow> v \<noteq> JNull \<Longrightarrow>
   POST new_URL (Some v) = Respond (Literal ''URL is required'') 400"
  by (cases v) (simp_all add: POST_def)

lemma POST_fetch_only_valid:
  assumes "POST new_URL body = FetchAndExtract x"
  shows "\<exists>kvs u p. body = Some (JObj kvs) \<and> map_of (rev kvs) ''url'' = Some u \<and> truthy u
     \<and> new_URL u = Some p \<and> protocol p \<in> {''http:'', ''https:''} \<and> x = href p"
proof (cases body)
  case None
  with assms show ?thesis by (simp add: POST_def catch_error_def)
next
  case (Some v)
  show ?thesis
  proof (cases "\<exists>kvs. v = JObj kvs")
    case True
    then obtain kvs where v: "v = JObj kvs" by blast
    from assms Some v show ?thesis
      by (auto simp: POST_object split: option.splits if_splits)
  next
    case False
    with assms Some show ?thesis
      by (cases v) (simp_all add: POST_def catch_error_def)
  qed
qed

text \<open>
  Claim C10, as the code has it. A body that is a JSON object without a \<^verbatim>\<open>url\<close> member,
  or with one that is not truthy (the empty string, zero, \<^verbatim>\<open>false\<close>, \<^verbatim>\<open>null\<close>), is answered
  400 \<^verbatim>\<open>URL is required\<close>, and so is a body that is a string, a number, a boolean or an
  array. A truthy \<^verbatim>\<open>url\<close> that the URL constructor rejects, or whose protocol is neither
  \<^verbatim>\<open>http:\<close> nor \<^verbatim>\<open>https:\<close>, is answered 400 \<^verbatim>\<open>Invalid URL format\<close>. The body \<^verbatim>\<open>null\<close> and
  a body that is not JSON are answered 500 by the outer \<^verbatim>\<open>catch\<close>. The handler goes on to
  fetch and extract only for an object whose truthy \<^verbatim>\<open>url\<close> parses with one of the two
  protocols, so in all the other cases nothing is fetched or extracted.
\<close>

theorem post_validates_before_fetching:
  "(map_of (rev kvs) ''url'' = None \<longrightarrow>
      POST new_URL (Some (JObj kvs)) = Respond (Literal ''URL is required'') 400)
   \<and> (map_of (rev kvs) ''url'' = Some u \<and> \<not> truthy u \<longrightarrow>
      POST new_URL (Some (JObj kvs)) = Respond (Literal ''URL is required'') 400)
   \<and> (map_of (rev kvs) ''url'' = Some u \<and> truthy u
        \<and> (new_URL u = None \<or> (\<exists>p. new_URL u = Some p \<and> protocol p \<notin> {''http:'', ''https:''})) \<longrightarrow>
      POST new_URL (Some (JObj kvs)) = Respond (Literal ''Invalid URL format'') 400)
   \<and> ((\<forall>kvs'. v \<noteq> JObj kvs') \<and> v \<noteq> JNull \<longrightarrow>
      POST new_URL (Some v) = Respond (Literal ''URL is required'') 400)
   \<and> POST new_URL (Some JNull) = Respond (MessageOf TypeError) 500
   \<and> POST new_URL None = Respond (MessageOf SyntaxError) 500
   \<and> (POST new_URL body = FetchAndExtract x \<longrightarrow>
        (\<exists>kvs' u' p. body = Some (JObj kvs') \<and> map_of (rev kvs') ''url'' = Some u' \<and> truthy u'
           \<and> new_URL u' = Some p \<and> protocol p \<in> {''http:'', ''https:''} \<and> x = href p))"
proof -
  have 1: "map_of (rev kvs) ''url'' = None \<longrightarrow>
      POST new_URL (Some (JObj kvs)) = Respond (Literal ''URL is required'') 400"
    by (simp add: POST_object)
  have 2: "map_of (rev kvs) ''url'' = Some u \<and> \<not> truthy u \<longrightarrow>
      POST new_URL (Some (JObj kvs)) = Respond (Literal ''URL is required'') 400"
    by (simp add: POST_object)
  have 3: "map_of (rev kvs) ''url'' = Some u \<and> truthy u
        \<and> (new_URL u = None \<or> (\<exists>p. new_URL u = Some p \<and> protocol p \<notin> {''http:'', ''https:''})) \<longrightarrow>
      POST new_URL (Some (JObj kvs)) = Respond (Literal ''Invalid URL format'') 400"
    by (auto simp: POST_object)
  have 4: "(\<forall>kvs'. v \<noteq> JObj kvs') \<and> v \<noteq> JNull \<longrightarrow>
      POST new_URL (Some v) = Respond (Literal ''URL is required'') 400"
    using POST_no_member by blast
  have 5: "POST new_URL (Some JNull) = Respond (MessageOf TypeError) 500"
    by (simp add: POST_def catch_error_def)
  have 6: "POST new_URL None = Respond (MessageOf SyntaxError) 500"
    by (simp add: POST_def catch_error_def)
  have 7: "POST new_URL body = FetchAndExtract x \<longrightarrow>
        (\<exists>kvs' u' p. body = Some (JObj kvs') \<and> map_of (rev kvs') ''url'' = Some u' \<and> truthy u'
           \<and> new_URL u' = Some p \<and> protocol p \<in> {''http:'', ''https:''} \<and> x = href p)"
    using POST_fetch_only_valid by blast
  from 1 2 3 4 5 6 7 show ?thesis by blast
qed

text \<open>
  A body without \<^verbatim>\<open>url\<close>, an \<^verbatim>\<open>ftp:\<close> address, a string that is no address, and an
  \<^verbatim>\<open>https:\<close> address.
\<close>

theorem post_validates_witness:
  "map_of (rev [(''other'', JNum 1)]) ''url'' = None
   \<and> POST sample_URL (Some (JObj [(''other'', JNum 1)])) = Respond (Literal ''URL is required'') 400
   \<and> map_of (rev [(''url'', JStr ''ftp://example.com/'')]) ''url'' = Some (JStr ''ftp://example.com/'')
   \<and> truthy (JStr ''ftp://example.com/'')
   \<and> sample_URL (JStr ''ftp://example.com/'') =
        Some \<lparr>protocol = ''ftp:'', href = ''ftp://example.com/''\<rparr>
   \<and> POST sample_URL (Some (JObj [(''url'', JStr ''ftp://example.com/'')])) =
        Respond (Literal ''Invalid URL format'') 400
   \<and> POST sample_URL (Some (JObj [(''url'', JStr ''not a url'')])) =
        Respond (Literal ''Invalid URL format'') 400
   \<and> POST sample_URL (Some (JObj [(''url'', JStr ''https://example.com/'')])) =
        FetchAndExtract ''https://example.com/''"
proof -
  have a: "map_of (rev [(''other'', JNum 1)]) ''url'' = None" by simp
  have b: "map_of (rev [(''url'', JStr ''ftp://example.com/'')]) ''url'' = Some (JStr ''ftp://example.com/'')"
    by simp
  have c: "truthy (JStr ''ftp://example.com/'')" by simp
  have d: "sample_URL (JStr ''ftp://example.com/'') =
        Some \<lparr>protocol = ''ftp:'', href = ''ftp://example.com/''\<rparr>" by code_simp
  have d': "protocol \<lparr>protocol = ''ftp:'', href = ''ftp://example.com/''\<rparr> \<notin> {''http:'', ''https:''}"
    by simp
  have e: "POST sample_URL (Some (JObj [(''url'', JStr ''not a url'')])) =
        Respond (Literal ''Invalid URL format'') 400" by code_simp
  have f: "POST sample_URL (Some (JObj [(''url'', JStr ''https://example.com/'')])) =
        FetchAndExtract ''https://example.com/''" by code_simp
  from post_validates_before_fetching [of "[(''other'', JNum 1)]" sample_URL] a
  have 1: "POST sample_URL (Some (JObj [(''other'', JNum 1)])) = Respond (Literal ''URL is required'') 400"
    by blast
  from post_validates_before_fetching [of "[(''url'', JStr ''ftp://example.com/'')]" sample_URL
      "JStr ''ftp://example.com/''"] b c d d'
  have 2: "POST sample_URL (Some (JObj [(''url'', JStr ''ftp://example.com/'')])) =
        Respond (Literal ''Invalid URL format'') 400"
    by blast
  from a b c d e f 1 2 show ?thesis by blast
qed

text \<open>
  The empty string does not parse as an address, and the answer is \<^verbatim>\<open>URL is required\<close>;
  the body \<^verbatim>\<open>null\<close> has no \<^verbatim>\<open>url\<close>, and the answer is 500.
\<close>

theorem post_empty_url_counterexample:
  "sample_URL (JStr []) = None
   \<and> POST sample_URL (Some (JObj [(''url'', JStr [])])) = Respond (Literal ''URL is required'') 400
   \<and> POST sample_URL (Some JNull) = Respond (MessageOf TypeError) 500"
  by code_simp

end
